theory Spec2Isabelle
  imports Complex_Main "HOL-Library.Word" "HOL-Library.FSet"
begin

unbundle bit_operations_syntax

section \<open>GuardRail: a distributed circuit breaker\<close>

text \<open>
  A shallow embedding of \<^verbatim>\<open>src/HighPerformanceCircuitBreaker.ts\<close> (the classes
  \<^verbatim>\<open>HighPerformanceCircuitBreaker\<close> and \<^verbatim>\<open>ShardedCircuitBreakerFactory\<close>), of
  \<^verbatim>\<open>EtcdStateStore\<close> and of the test double \<^verbatim>\<open>InMemoryStateStore\<close>; the types are
  those of \<^verbatim>\<open>src/types.ts\<close>.

  Conventions of the model.
  \<^item> JavaScript numbers that hold counts and epoch milliseconds are \<open>int\<close>; the doubles
    stay exact far beyond any value these fields take. The one quotient,
    \<^verbatim>\<open>calculateAverageResponseTime\<close>, is the exact fraction (\<open>rat\<close>) where the code
    rounds to a double; it only feeds advisory fields.
  \<^item> \<^verbatim>\<open>Date.now()\<close> reads a clock: the \<open>k\<close>-th reading made in a run is \<open>clock w k\<close>,
    and \<open>reads w\<close> counts the readings made so far, so time may pass between any
    two readings.
  \<^item> Store operations do not fail. Every \<^verbatim>\<open>async\<close> method is given twice: as a
    function on the world that runs it to completion, no other task between its
    \<^verbatim>\<open>await\<close>s (the sequential reading), and as a program with every \<^verbatim>\<open>await\<close> in
    place, for operations that overlap under an arbitrary schedule. The two agree for
    a program that runs alone. \<open>run\<close> is a coarser view of overlapping calls, in whole
    steps (admission, settlement, health check, a write by another process).
\<close>

subsection \<open>Key routing: \<^verbatim>\<open>getShardIdForKey\<close>\<close>

text \<open>
  ECMAScript \<^verbatim>\<open>ToInt32\<close>: reduce modulo \<open>2^32\<close>, then read the result as two's
  complement. Both \<^verbatim>\<open>hash << 5\<close> and \<^verbatim>\<open>hash |= 0\<close> apply it.
\<close>

definition ToInt32 :: "int \<Rightarrow> int" where
  "ToInt32 x = (let int32bit = x mod 2 ^ 32
                in if int32bit \<ge> 2 ^ 31 then int32bit - 2 ^ 32 else int32bit)"

text \<open>\<^verbatim>\<open>hash << 5\<close>: the left shift of a 32-bit integer, wrapped to 32 bits.\<close>

definition shl5 :: "int \<Rightarrow> int" where
  "shl5 h = ToInt32 (ToInt32 h * 2 ^ 5)"

text \<open>
  The loop body: \<^verbatim>\<open>hash = ((hash << 5) - hash) + key.charCodeAt(i); hash |= 0;\<close>
  The subtraction and the addition are on doubles and exact (all operands are below
  \<open>2^32\<close> in magnitude).
\<close>

definition hash_step :: "int \<Rightarrow> int \<Rightarrow> int" where
  "hash_step hash c = ToInt32 ((shl5 hash - hash) + c)"

text \<open>
  A JavaScript string is a sequence of UTF-16 code units; \<^verbatim>\<open>charCodeAt\<close> returns the
  unit as a number in \<open>[0, 65535]\<close>.
\<close>

type_synonym jsstring = "16 word list"

definition charCodes :: "jsstring \<Rightarrow> int list" where
  "charCodes key = map uint key"

definition key_hash :: "jsstring \<Rightarrow> int" where
  "key_hash key = foldl hash_step 0 (charCodes key)"

text \<open>
  \<^verbatim>\<open>return Math.abs(hash) % shardCount;\<close> The only caller passes
  \<^verbatim>\<open>breakers.length\<close>, a natural number. For \<open>shardCount = 0\<close> the remainder
  is \<^verbatim>\<open>NaN\<close>, modelled as \<open>None\<close>. \<^verbatim>\<open>Math.abs\<close> is on doubles, so
  \<open>\<bar>-2^31\<bar> = 2^31\<close> without overflow.
\<close>

definition getShardIdForKey :: "jsstring \<Rightarrow> nat \<Rightarrow> int option" where
  "getShardIdForKey key shardCount =
     (let hash = key_hash key
      in if shardCount = 0 then None else Some (\<bar>hash\<bar> mod int shardCount))"

text \<open>
  The specification's words, for comparison: the djb2-style iteration
  \<open>h = ((h << 5) - h) + c\<close> on 32-bit words with wrap-around, read as a signed
  integer, then \<open>abs(h) mod n\<close>.
\<close>

definition spec_djb2_step :: "32 word \<Rightarrow> 16 word \<Rightarrow> 32 word" where
  "spec_djb2_step h c = (push_bit 5 h - h) + ucast c"

definition spec_djb2 :: "jsstring \<Rightarrow> 32 word" where
  "spec_djb2 key = foldl spec_djb2_step 0 key"

definition spec_routeKey :: "jsstring \<Rightarrow> nat \<Rightarrow> int" where
  "spec_routeKey key n = \<bar>sint (spec_djb2 key)\<bar> mod int n"

text \<open>Code units of an ASCII literal, for concrete keys.\<close>

definition ascii :: "string \<Rightarrow> jsstring" where
  "ascii s = map (\<lambda>c. of_nat (of_char c)) s"

subsection \<open>Data model (\<^verbatim>\<open>types.ts\<close>)\<close>

datatype CircuitBreakerState = CLOSED | OPEN | HALF_OPEN

text \<open>
  \<^verbatim>\<open>CircuitBreakerOptions\<close>; \<^verbatim>\<open>maxConcurrent?: number\<close> is optional in the
  interface.
\<close>

record CircuitBreakerOptions =
  failureThreshold :: int
  resetTimeout :: int
  halfOpenRetryLimit :: int
  monitorInterval :: int
  serviceTimeout :: int
  maxConcurrent :: "int option"

text \<open>\<^verbatim>\<open>Partial<CircuitBreakerOptions>\<close>, the constructor's argument.\<close>

record PartialOptions =
  p_failureThreshold :: "int option"
  p_resetTimeout :: "int option"
  p_halfOpenRetryLimit :: "int option"
  p_monitorInterval :: "int option"
  p_serviceTimeout :: "int option"
  p_maxConcurrent :: "int option"

text \<open>\<^verbatim>\<open>a ?? d\<close>\<close>

definition nullish :: "'a option \<Rightarrow> 'a \<Rightarrow> 'a" where
  "nullish a d = (case a of None \<Rightarrow> d | Some v \<Rightarrow> v)"

text \<open>The options a breaker is constructed with (constructor, \<^verbatim>\<open>this.options = {...}\<close>).\<close>

definition constructor_options :: "PartialOptions \<Rightarrow> CircuitBreakerOptions" where
  "constructor_options opts =
     \<lparr> failureThreshold = nullish (p_failureThreshold opts) 5,
       resetTimeout = nullish (p_resetTimeout opts) 60000,
       halfOpenRetryLimit = nullish (p_halfOpenRetryLimit opts) 1,
       monitorInterval = nullish (p_monitorInterval opts) 30000,
       serviceTimeout = nullish (p_serviceTimeout opts) 5000,
       maxConcurrent = Some (nullish (p_maxConcurrent opts) 10000) \<rparr>"

text \<open>
  \<^verbatim>\<open>CircuitBreakerStats\<close>, the persisted record. \<open>None\<close> is \<^verbatim>\<open>null\<close> for the
  nullable fields and an absent property for the optional ones.
\<close>

record CircuitBreakerStats =
  state :: CircuitBreakerState
  failureCount :: int
  lastFailureTime :: "int option"
  lastSuccessTime :: "int option"
  totalRequests :: int
  successfulRequests :: int
  failedRequests :: int
  lastError :: "string option"
  currentLoad :: "int option"
  averageResponseTime :: "rat option"
  lastMinuteRequests :: "int option"
  lastUpdateTime :: "int option"

text \<open>
  A thrown value. A promise can reject with anything: an \<^verbatim>\<open>Error\<close> with its
  message; some other value that is not \<^verbatim>\<open>null\<close> or \<^verbatim>\<open>undefined\<close>, given by its
  \<^verbatim>\<open>.message\<close> property (\<open>None\<close> when it has none) and its
  \<^verbatim>\<open>String(...)\<close> rendering; \<^verbatim>\<open>null\<close>; or \<^verbatim>\<open>undefined\<close>.
\<close>

datatype thrown = Error string | NonError "string option" string | Null | Undefined

text \<open>
  \<^verbatim>\<open>error.message\<close>: the property read, which throws a \<^verbatim>\<open>TypeError\<close> on
  \<^verbatim>\<open>null\<close> and \<^verbatim>\<open>undefined\<close> (the engine's message is cut short here).
\<close>

fun message :: "thrown \<Rightarrow> thrown + string option" where
  "message (Error m) = Inr (Some m)"
| "message (NonError m v) = Inr m"
| "message Null = Inl (Error ''Cannot read properties of null'')"
| "message Undefined = Inl (Error ''Cannot read properties of undefined'')"

text \<open>
  The events of \<^verbatim>\<open>CircuitBreakerEventType\<close> and those the breaker emits, with their
  payloads. The \<^verbatim>\<open>metrics\<close> payload emitted by \<^verbatim>\<open>execute\<close> is
  \<^verbatim>\<open>{requestRate, errorRate, averageResponseTime, concurrentRequests}\<close>.
\<close>

datatype event =
    stateChange_event CircuitBreakerState CircuitBreakerState
  | circuitOpen_event thrown
  | failure_event thrown
  | metrics_event rat rat rat int
  | healthCheck_event CircuitBreakerStats
  | stateUpdate_event CircuitBreakerStats
  | success_event int CircuitBreakerStats
  | timeout_event thrown CircuitBreakerStats
  | rejected_event thrown CircuitBreakerStats

fun is_rejected_event :: "event \<Rightarrow> bool" where
  "is_rejected_event (rejected_event e s) = True"
| "is_rejected_event _ = False"

subsection \<open>The world a breaker runs in\<close>

text \<open>
  One breaker instance together with what it touches: the store's contents \<open>kv\<close>
  (shared with other processes), the keys on which the breaker's \<^verbatim>\<open>stateUpdate\<close>
  callback is registered with an in-memory store, the instance fields
  \<^verbatim>\<open>activeRequests\<close>, \<^verbatim>\<open>requestTimes\<close>, \<^verbatim>\<open>errorTimes\<close>, \<^verbatim>\<open>responseTimes\<close>,
  the events emitted so far (oldest first), the number of \<^verbatim>\<open>Symbol\<close>s created (the
  next fresh request id), the number of times a service call was invoked, and the
  clock.
\<close>

record world =
  kv :: "string \<rightharpoonup> CircuitBreakerStats"
  watchers :: "string set"
  activeRequests :: "nat fset"
  requestTimes :: "int list"
  errorTimes :: "int list"
  responseTimes :: "int list"
  emitted :: "event list"
  symbols :: nat
  invoked :: nat
  clock :: "nat \<Rightarrow> int"
  reads :: nat

definition Date_now :: "world \<Rightarrow> int \<times> world" where
  "Date_now w = (clock w (reads w), w\<lparr>reads := Suc (reads w)\<rparr>)"

definition emit :: "event \<Rightarrow> world \<Rightarrow> world" where
  "emit e w = w\<lparr>emitted := emitted w @ [e]\<rparr>"

subsection \<open>The two state stores\<close>

datatype StateStore = EtcdStateStore | InMemoryStateStore

text \<open>\<^verbatim>\<open>EtcdStateStore.getKey\<close>; the in-memory store uses the service key as it is.\<close>

definition getKey :: "string \<Rightarrow> string" where
  "getKey serviceKey = ''circuit-breaker/'' @ serviceKey"

fun storeKey :: "StateStore \<Rightarrow> string \<Rightarrow> string" where
  "storeKey EtcdStateStore serviceKey = getKey serviceKey"
| "storeKey InMemoryStateStore key = key"

definition getState :: "StateStore \<Rightarrow> string \<Rightarrow> world \<Rightarrow> CircuitBreakerStats option" where
  "getState st serviceKey w = kv w (storeKey st serviceKey)"

text \<open>
  \<^verbatim>\<open>InMemoryStateStore.notifyWatchers\<close> calls the registered callbacks at once; the
  breaker's callback emits \<^verbatim>\<open>stateUpdate\<close>. An etcd watch is delivered later by the
  server and is not part of the write.
\<close>

definition notifyWatchers :: "string \<Rightarrow> CircuitBreakerStats \<Rightarrow> world \<Rightarrow> world" where
  "notifyWatchers key stats w =
     (if key \<in> watchers w then emit (stateUpdate_event stats) w else w)"

fun setState :: "StateStore \<Rightarrow> string \<Rightarrow> CircuitBreakerStats \<Rightarrow> world \<Rightarrow> world" where
  "setState EtcdStateStore serviceKey stats w =
     w\<lparr>kv := (kv w)(getKey serviceKey \<mapsto> stats)\<rparr>"
| "setState InMemoryStateStore key stats w =
     notifyWatchers key stats (w\<lparr>kv := (kv w)(key \<mapsto> stats)\<rparr>)"

fun incrementFailureCount :: "StateStore \<Rightarrow> string \<Rightarrow> world \<Rightarrow> int \<times> world" where
  "incrementFailureCount EtcdStateStore serviceKey w =
     (case getState EtcdStateStore serviceKey w of
        Some currentStats \<Rightarrow>
          let (now, w1) = Date_now w;
              updatedStats = currentStats
                \<lparr> failureCount := failureCount currentStats + 1,
                  failedRequests := failedRequests currentStats + 1,
                  totalRequests := totalRequests currentStats + 1,
                  lastFailureTime := Some now \<rparr>
          in (failureCount updatedStats, setState EtcdStateStore serviceKey updatedStats w1)
      | None \<Rightarrow>
          let (now, w1) = Date_now w;
              initialStats =
                \<lparr> state = CLOSED, failureCount = 1, lastFailureTime = Some now,
                  lastSuccessTime = None, totalRequests = 1, successfulRequests = 0,
                  failedRequests = 1, lastError = None, currentLoad = None,
                  averageResponseTime = None, lastMinuteRequests = None,
                  lastUpdateTime = None \<rparr>
          in (1, setState EtcdStateStore serviceKey initialStats w1))"
| "incrementFailureCount InMemoryStateStore key w =
     (case getState InMemoryStateStore key w of
        None \<Rightarrow> (0, w)
      | Some stats \<Rightarrow>
          let (now, w1) = Date_now w;
              updatedStats = stats
                \<lparr> failureCount := failureCount stats + 1,
                  failedRequests := failedRequests stats + 1,
                  lastFailureTime := Some now,
                  lastUpdateTime := Some now \<rparr>
          in (failureCount updatedStats, setState InMemoryStateStore key updatedStats w1))"

fun resetStats :: "StateStore \<Rightarrow> string \<Rightarrow> world \<Rightarrow> world" where
  "resetStats EtcdStateStore serviceKey w =
     (case getState EtcdStateStore serviceKey w of
        Some currentStats \<Rightarrow>
          setState EtcdStateStore serviceKey
            (currentStats\<lparr>failureCount := 0, lastFailureTime := None, lastError := None\<rparr>) w
      | None \<Rightarrow> w)"
| "resetStats InMemoryStateStore key w =
     (case getState InMemoryStateStore key w of
        Some stats \<Rightarrow>
          setState InMemoryStateStore key
            (stats\<lparr>failureCount := 0, failedRequests := 0, lastFailureTime := None,
                   lastError := None, state := CLOSED\<rparr>) w
      | None \<Rightarrow> w)"

subsection \<open>\<^verbatim>\<open>HighPerformanceCircuitBreaker\<close>\<close>

text \<open>The immutable fields of a breaker instance.\<close>

record breaker =
  serviceKey :: string
  stateStore :: StateStore
  options :: CircuitBreakerOptions

definition initializeState :: "breaker \<Rightarrow> world \<Rightarrow> world" where
  "initializeState b w =
     (case getState (stateStore b) (serviceKey b) w of
        None \<Rightarrow>
          let (t1, w1) = Date_now w;
              (t2, w2) = Date_now w1
          in setState (stateStore b) (serviceKey b)
               \<lparr> state = CLOSED, failureCount = 0, lastFailureTime = None,
                 lastSuccessTime = Some t1, totalRequests = 0, successfulRequests = 0,
                 failedRequests = 0, lastError = None, currentLoad = Some 0,
                 averageResponseTime = Some 0, lastMinuteRequests = None,
                 lastUpdateTime = Some t2 \<rparr> w2
      | Some stats \<Rightarrow> w)"

text \<open>\<^verbatim>\<open>xs.slice(-100)\<close>: the last 100 elements, or all of them when there are fewer.\<close>

definition slice_last100 :: "'a list \<Rightarrow> 'a list" where
  "slice_last100 xs = drop (length xs - 100) xs"

definition calculateAverageResponseTime :: "world \<Rightarrow> rat" where
  "calculateAverageResponseTime w =
     (if length (responseTimes w) = 0 then 0
      else let recentTimes = slice_last100 (responseTimes w)
           in of_int (foldl (\<lambda>sum time. sum + time) 0 recentTimes)
                / of_nat (length recentTimes))"

definition calculateRequestRate :: "world \<Rightarrow> rat" where
  "calculateRequestRate w =
     (if length (requestTimes w) = 0 then 0
      else let recentTimes = slice_last100 (requestTimes w)
           in of_nat (length recentTimes) / 5)"

definition calculateErrorRate :: "world \<Rightarrow> rat" where
  "calculateErrorRate w =
     (if length (errorTimes w) = 0 then 0
      else let recentErrors = slice_last100 (errorTimes w)
           in of_nat (length recentErrors) / 5)"

text \<open>
  \<^verbatim>\<open>updateStats(stats, updates)\<close> writes \<^verbatim>\<open>{...stats, ...updates, lastUpdateTime:
  Date.now()}\<close>. The partial record \<^verbatim>\<open>updates\<close> is the function that overwrites its
  fields; a caller evaluates the fields of \<^verbatim>\<open>updates\<close> before the call, so any clock
  reading in them precedes the one made here.
\<close>

definition updateStats ::
  "breaker \<Rightarrow> CircuitBreakerStats \<Rightarrow> (CircuitBreakerStats \<Rightarrow> CircuitBreakerStats) \<Rightarrow> world \<Rightarrow> world" where
  "updateStats b stats updates w =
     (let (now, w1) = Date_now w;
          updatedStats = (updates stats)\<lparr>lastUpdateTime := Some now\<rparr>
      in setState (stateStore b) (serviceKey b) updatedStats w1)"

definition transitionToHalfOpen :: "breaker \<Rightarrow> world \<Rightarrow> world" where
  "transitionToHalfOpen b w =
     (case getState (stateStore b) (serviceKey b) w of
        None \<Rightarrow> w
      | Some stats \<Rightarrow>
          if state stats \<noteq> OPEN then w
          else let w1 = updateStats b stats
                          (\<lambda>s. s\<lparr> state := HALF_OPEN, failureCount := 0,
                                   failedRequests := failedRequests stats \<rparr>) w
               in emit (stateChange_event OPEN HALF_OPEN) w1)"

text \<open>
  \<^verbatim>\<open>transitionToOpen\<close> evaluates \<^verbatim>\<open>Date.now()\<close> and then \<^verbatim>\<open>error.message\<close> while
  building the update; the result is the \<^verbatim>\<open>TypeError\<close> thrown there, if any.
\<close>

definition transitionToOpen :: "breaker \<Rightarrow> thrown \<Rightarrow> world \<Rightarrow> thrown option \<times> world" where
  "transitionToOpen b error w =
     (case getState (stateStore b) (serviceKey b) w of
        None \<Rightarrow> (None, w)
      | Some stats \<Rightarrow>
          if state stats = OPEN then (None, w)
          else let (now, w1) = Date_now w
               in (case message error of
                     Inl typeError \<Rightarrow> (Some typeError, w1)
                   | Inr lastError' \<Rightarrow>
                       (let w2 = updateStats b stats
                                   (\<lambda>s. s\<lparr> state := OPEN, lastFailureTime := Some now,
                                            lastError := lastError',
                                            failureCount := failureThreshold (options b) \<rparr>) w1;
                            w3 = emit (stateChange_event (state stats) OPEN) w2
                        in (None, emit (circuitOpen_event error) w3))))"

definition transitionToClosed :: "breaker \<Rightarrow> world \<Rightarrow> world" where
  "transitionToClosed b w =
     (case getState (stateStore b) (serviceKey b) w of
        None \<Rightarrow> w
      | Some stats \<Rightarrow>
          if state stats = CLOSED then w
          else let (now, w1) = Date_now w;
                   w2 = updateStats b stats
                          (\<lambda>s. s\<lparr> state := CLOSED, failureCount := 0,
                                   failedRequests := 0, lastSuccessTime := Some now \<rparr>) w1
               in emit (stateChange_event (state stats) CLOSED) w2)"

definition recordResponseTime :: "int \<Rightarrow> world \<Rightarrow> world" where
  "recordResponseTime responseTime w = w\<lparr>responseTimes := responseTimes w @ [responseTime]\<rparr>"

definition recordSuccess :: "breaker \<Rightarrow> world \<Rightarrow> world" where
  "recordSuccess b w =
     (case getState (stateStore b) (serviceKey b) w of
        None \<Rightarrow> w
      | Some stats \<Rightarrow>
          let (now, w1) = Date_now w
          in updateStats b stats
               (\<lambda>s. s\<lparr> successfulRequests := successfulRequests stats + 1,
                        totalRequests := totalRequests stats + 1,
                        lastSuccessTime := Some now,
                        averageResponseTime := Some (calculateAverageResponseTime w1),
                        currentLoad := Some (int (fcard (activeRequests w1))) \<rparr>) w1)"

text \<open>
  \<^verbatim>\<open>recordFailure\<close>: the update passed to \<^verbatim>\<open>updateStats\<close> is built after
  \<^verbatim>\<open>incrementFailureCount\<close> has returned, and reads \<^verbatim>\<open>error.message\<close> before
  \<^verbatim>\<open>Date.now()\<close>. The result is the \<^verbatim>\<open>TypeError\<close> thrown, if any.
\<close>

definition recordFailure :: "breaker \<Rightarrow> thrown \<Rightarrow> world \<Rightarrow> thrown option \<times> world" where
  "recordFailure b error w =
     (case getState (stateStore b) (serviceKey b) w of
        None \<Rightarrow> (None, w)
      | Some stats \<Rightarrow>
          let (failureCount', w1) = incrementFailureCount (stateStore b) (serviceKey b) w
          in (case message error of
                Inl typeError \<Rightarrow> (Some typeError, w1)
              | Inr lastError' \<Rightarrow>
                  (let (now, w2) = Date_now w1;
                       w3 = updateStats b stats
                              (\<lambda>s. s\<lparr> failedRequests := failedRequests stats + 1,
                                       totalRequests := totalRequests stats + 1,
                                       lastError := lastError',
                                       failureCount := failureCount',
                                       lastFailureTime := Some now,
                                       averageResponseTime := Some (calculateAverageResponseTime w2),
                                       currentLoad := Some (int (fcard (activeRequests w2))) \<rparr>) w2;
                       w4 = emit (failure_event error) w3
                   in if state stats = HALF_OPEN \<or> failureCount' \<ge> failureThreshold (options b)
                      then transitionToOpen b error w4
                      else (None, w4))))"

text \<open>One run of \<^verbatim>\<open>performHealthCheck\<close> (the body of the health-check timer).\<close>

definition performHealthCheck :: "breaker \<Rightarrow> world \<Rightarrow> world" where
  "performHealthCheck b w =
     (case getState (stateStore b) (serviceKey b) w of
        None \<Rightarrow> w
      | Some stats \<Rightarrow>
          let (now, w1) = Date_now w;
              lastFailureTime' = nullish (lastFailureTime stats) 0
          in if state stats = OPEN \<and> now - lastFailureTime' \<ge> resetTimeout (options b)
                \<and> (case getState (stateStore b) (serviceKey b) w1 of
                       None \<Rightarrow> False
                     | Some currentStats \<Rightarrow> state currentStats = OPEN)
             then transitionToHalfOpen b w1
             else let updatedStats = stats
                        \<lparr> currentLoad := Some (int (fcard (activeRequests w1))),
                          averageResponseTime := Some (calculateAverageResponseTime w1),
                          lastMinuteRequests := Some (int (length (requestTimes w1))),
                          lastUpdateTime := Some now \<rparr>;
                      w2 = setState (stateStore b) (serviceKey b) updatedStats w1
                  in emit (healthCheck_event updatedStats) w2)"

subsection \<open>\<^verbatim>\<open>execute\<close>\<close>

text \<open>
  What the promise returned by \<^verbatim>\<open>serviceCall()\<close> does: it resolves, it rejects, or
  it stays pending (at least until the deadline timer fires). The service call is
  taken to touch neither the store nor the breaker.
\<close>

datatype 'a settles = Resolves 'a | Rejects thrown | Pending

text \<open>
  \<^verbatim>\<open>Promise.race([serviceCall(), timeoutPromise])\<close>: the timer only exists when
  \<^verbatim>\<open>serviceTimeout > 0\<close>.
\<close>

fun race :: "CircuitBreakerOptions \<Rightarrow> 'a settles \<Rightarrow> 'a settles" where
  "race opts Pending =
     (if serviceTimeout opts > 0 then Rejects (Error ''Service timeout'') else Pending)"
| "race opts settled = settled"

text \<open>The outcome of an \<^verbatim>\<open>async\<close> call: a value, a rejection, or a promise that never settles.\<close>

datatype 'a outcome = Returned 'a | Threw thrown | Hangs

text \<open>What an admitted call carries into the request: its id, start time and the stats it loaded.\<close>

record admission =
  requestId :: nat
  startTime :: int
  loadedStats :: CircuitBreakerStats

text \<open>
  The check and registration that run without an \<^verbatim>\<open>await\<close> in between:
  the \<^verbatim>\<open>maxConcurrent\<close> test, \<^verbatim>\<open>Symbol("request")\<close>,
  \<^verbatim>\<open>activeRequests.add\<close>, \<^verbatim>\<open>requestTimes.push\<close>.
\<close>

definition admit :: "breaker \<Rightarrow> CircuitBreakerStats \<Rightarrow> world \<Rightarrow> (thrown + admission) \<times> world" where
  "admit b stats w =
     (if (case maxConcurrent (options b) of
            None \<Rightarrow> False
          | Some m \<Rightarrow> int (fcard (activeRequests w)) \<ge> m)
      then (Inl (Error ''Maximum concurrent requests exceeded''), w)
      else let requestId' = symbols w;
               w1 = w\<lparr> symbols := Suc (symbols w),
                       activeRequests := finsert requestId' (activeRequests w) \<rparr>;
               (startTime', w2) = Date_now w1;
               w3 = w2\<lparr>requestTimes := requestTimes w2 @ [startTime']\<rparr>
           in (Inr \<lparr>requestId = requestId', startTime = startTime', loadedStats = stats\<rparr>, w3))"

text \<open>
  \<^verbatim>\<open>(await this.stateStore.getState(this.serviceKey))!\<close>: were the record absent, the
  next property access would throw a \<^verbatim>\<open>TypeError\<close> (its message is cut short
  here). Both reloads follow a write of the key, so that branch is never taken.
\<close>

definition reload ::
  "breaker \<Rightarrow> world \<Rightarrow> (CircuitBreakerStats \<Rightarrow> world \<Rightarrow> (thrown + admission) \<times> world)
     \<Rightarrow> (thrown + admission) \<times> world" where
  "reload b w continue =
     (case getState (stateStore b) (serviceKey b) w of
        None \<Rightarrow> (Inl (Error ''Cannot read properties of null''), w)
      | Some stats \<Rightarrow> continue stats w)"

text \<open>The open-circuit gate of \<^verbatim>\<open>execute\<close>, then \<open>admit\<close>.\<close>

definition gate :: "breaker \<Rightarrow> CircuitBreakerStats \<Rightarrow> world \<Rightarrow> (thrown + admission) \<times> world" where
  "gate b stats w =
     (if state stats = OPEN
      then let (now, w1) = Date_now w;
               lastFailureTime' = nullish (lastFailureTime stats) 0
           in if now - lastFailureTime' \<ge> resetTimeout (options b)
              then reload b (transitionToHalfOpen b w1) (admit b)
              else (Inl (Error ''Circuit breaker is OPEN''), w1)
      else admit b stats w)"

text \<open>\<^verbatim>\<open>execute\<close> up to and including \<^verbatim>\<open>requestTimes.push(startTime)\<close>.\<close>

definition execute_admission :: "breaker \<Rightarrow> world \<Rightarrow> (thrown + admission) \<times> world" where
  "execute_admission b w =
     (case getState (stateStore b) (serviceKey b) w of
        None \<Rightarrow> reload b (initializeState b w) (gate b)
      | Some stats \<Rightarrow> gate b stats w)"

text \<open>The \<^verbatim>\<open>finally\<close> block of the request.\<close>

definition cleanup_request :: "nat \<Rightarrow> world \<Rightarrow> world" where
  "cleanup_request requestId' w =
     (let w1 = w\<lparr>activeRequests := activeRequests w |-| {|requestId'|}\<rparr>
      in emit (metrics_event (calculateRequestRate w1) (calculateErrorRate w1)
                 (calculateAverageResponseTime w1) (int (fcard (activeRequests w1)))) w1)"

text \<open>
  The request of an admitted call starts at once, without an \<^verbatim>\<open>await\<close> after the
  admission: it invokes the service call and awaits the race against the deadline.
\<close>

definition invoke :: "world \<Rightarrow> world" where
  "invoke w = w\<lparr>invoked := Suc (invoked w)\<rparr>"

text \<open>
  The rest of the request, once the race has settled: record the outcome, clean up. A
  \<^verbatim>\<open>TypeError\<close> thrown by \<^verbatim>\<open>recordFailure\<close> replaces the service error.
\<close>

definition settle_request :: "breaker \<Rightarrow> admission \<Rightarrow> 'a settles \<Rightarrow> world \<Rightarrow> 'a outcome \<times> world" where
  "settle_request b adm serviceCall w =
     (case race (options b) serviceCall of
        Pending \<Rightarrow> (Hangs, w)
      | Resolves result \<Rightarrow>
          (let (t, w2) = Date_now w;
               responseTime' = t - startTime adm;
               w3 = recordResponseTime responseTime' w2;
               w4 = recordSuccess b w3;
               w5 = (if state (loadedStats adm) = HALF_OPEN then transitionToClosed b w4 else w4)
           in (Returned result, cleanup_request (requestId adm) w5))
      | Rejects error \<Rightarrow>
          (let (typeError, w2) = recordFailure b error w
           in (Threw (case typeError of None \<Rightarrow> error | Some e \<Rightarrow> e),
               cleanup_request (requestId adm) w2)))"

definition execute_request :: "breaker \<Rightarrow> admission \<Rightarrow> 'a settles \<Rightarrow> world \<Rightarrow> 'a outcome \<times> world" where
  "execute_request b adm serviceCall w = settle_request b adm serviceCall (invoke w)"

definition execute :: "breaker \<Rightarrow> 'a settles \<Rightarrow> world \<Rightarrow> 'a outcome \<times> world" where
  "execute b serviceCall w =
     (case execute_admission b w of
        (Inl error, w1) \<Rightarrow> (Threw error, w1)
      | (Inr adm, w1) \<Rightarrow> execute_request b adm serviceCall w1)"

subsection \<open>The methods with their awaits\<close>

text \<open>
  The same methods once more, this time with every \<^verbatim>\<open>await\<close> in place, so that
  calls can overlap. A program is a tree of instructions: \<open>Sync\<close> is code that runs
  without an \<^verbatim>\<open>await\<close> (an effect on the world, and the rest of the program chosen
  from the world before the effect); \<open>Get\<close> and \<open>Put\<close> are the awaited
  \<^verbatim>\<open>stateStore.getState\<close> and \<^verbatim>\<open>stateStore.setState\<close>; \<open>Yield\<close> is any other
  \<^verbatim>\<open>await\<close>. A task runs from one await to the next without interruption; between
  two awaits of a task any other task may run. A store operation takes effect when it
  is called and its answer comes after any delay (with etcd, a round trip over the
  network), so every order of the turns is considered; the in-memory store answers at
  once, and fewer orders arise with it.
\<close>

datatype 'a prog =
    Return 'a
  | Sync "world \<Rightarrow> world" "world \<Rightarrow> 'a prog"
  | Get StateStore string "CircuitBreakerStats option \<Rightarrow> 'a prog"
  | Put StateStore string CircuitBreakerStats "'a prog"
  | Yield "'a prog"

primrec bind_prog :: "'a prog \<Rightarrow> ('a \<Rightarrow> 'b prog) \<Rightarrow> 'b prog" where
  "bind_prog (Return a) f = f a"
| "bind_prog (Sync e k) f = Sync e (\<lambda>w. bind_prog (k w) f)"
| "bind_prog (Get st key k) f = Get st key (\<lambda>s. bind_prog (k s) f)"
| "bind_prog (Put st key v p) f = Put st key v (bind_prog p f)"
| "bind_prog (Yield p) f = Yield (bind_prog p f)"

text \<open>
  \<^verbatim>\<open>x = await m(...)\<close> for an \<^verbatim>\<open>async\<close> method \<open>m\<close> of the breaker or the store:
  the caller resumes in a later turn than the one in which \<open>m\<close> returns.
\<close>

definition await_call :: "'a prog \<Rightarrow> ('a \<Rightarrow> 'b prog) \<Rightarrow> 'b prog" where
  "await_call m f = bind_prog m (\<lambda>x. Yield (f x))"

text \<open>\<^verbatim>\<open>Date.now()\<close>, \<^verbatim>\<open>this.emit(...)\<close>, and a read of the instance fields.\<close>

definition Now :: "(int \<Rightarrow> 'a prog) \<Rightarrow> 'a prog" where
  "Now k = Sync (\<lambda>w. snd (Date_now w)) (\<lambda>w. k (fst (Date_now w)))"

definition Emit :: "event \<Rightarrow> 'a prog \<Rightarrow> 'a prog" where
  "Emit e p = Sync (emit e) (\<lambda>w. p)"

definition Fields :: "(world \<Rightarrow> 'a prog) \<Rightarrow> 'a prog" where
  "Fields k = Sync (\<lambda>w. w) k"

text \<open>The sequential reading: run a program to its end, no other task in between.\<close>

primrec exec :: "'a prog \<Rightarrow> world \<Rightarrow> 'a \<times> world" where
  "exec (Return a) w = (a, w)"
| "exec (Sync e k) w = exec (k w) (e w)"
| "exec (Get st key k) w = exec (k (getState st key w)) w"
| "exec (Put st key v p) w = exec p (setState st key v w)"
| "exec (Yield p) w = exec p w"

text \<open>One turn of a task: run up to and including its next \<^verbatim>\<open>await\<close>.\<close>

primrec resume :: "'a prog \<Rightarrow> world \<Rightarrow> 'a prog \<times> world" where
  "resume (Return a) w = (Return a, w)"
| "resume (Sync e k) w = resume (k w) (e w)"
| "resume (Get st key k) w = (k (getState st key w), w)"
| "resume (Put st key v p) w = (p, setState st key v w)"
| "resume (Yield p) w = (p, w)"

text \<open>The store's \<^verbatim>\<open>incrementFailureCount\<close>: a read, then a write.\<close>

fun incrementFailureCount_prog :: "StateStore \<Rightarrow> string \<Rightarrow> int prog" where
  "incrementFailureCount_prog EtcdStateStore key =
     Get EtcdStateStore key (\<lambda>currentStats'.
       case currentStats' of
         Some currentStats \<Rightarrow>
           Now (\<lambda>now.
             let updatedStats = currentStats
                   \<lparr> failureCount := failureCount currentStats + 1,
                     failedRequests := failedRequests currentStats + 1,
                     totalRequests := totalRequests currentStats + 1,
                     lastFailureTime := Some now \<rparr>
             in Put EtcdStateStore key updatedStats (Return (failureCount updatedStats)))
       | None \<Rightarrow>
           Now (\<lambda>now.
             Put EtcdStateStore key
               \<lparr> state = CLOSED, failureCount = 1, lastFailureTime = Some now,
                 lastSuccessTime = None, totalRequests = 1, successfulRequests = 0,
                 failedRequests = 1, lastError = None, currentLoad = None,
                 averageResponseTime = None, lastMinuteRequests = None,
                 lastUpdateTime = None \<rparr>
               (Return 1)))"
| "incrementFailureCount_prog InMemoryStateStore key =
     Get InMemoryStateStore key (\<lambda>stats'.
       case stats' of
         None \<Rightarrow> Return 0
       | Some stats \<Rightarrow>
           Now (\<lambda>now.
             let updatedStats = stats
                   \<lparr> failureCount := failureCount stats + 1,
                     failedRequests := failedRequests stats + 1,
                     lastFailureTime := Some now,
                     lastUpdateTime := Some now \<rparr>
             in Put InMemoryStateStore key updatedStats (Return (failureCount updatedStats))))"

definition initializeState_prog :: "breaker \<Rightarrow> unit prog" where
  "initializeState_prog b =
     Get (stateStore b) (serviceKey b) (\<lambda>stats'.
       case stats' of
         None \<Rightarrow>
           Now (\<lambda>t1. Now (\<lambda>t2.
             Put (stateStore b) (serviceKey b)
               \<lparr> state = CLOSED, failureCount = 0, lastFailureTime = None,
                 lastSuccessTime = Some t1, totalRequests = 0, successfulRequests = 0,
                 failedRequests = 0, lastError = None, currentLoad = Some 0,
                 averageResponseTime = Some 0, lastMinuteRequests = None,
                 lastUpdateTime = Some t2 \<rparr>
               (Return ())))
       | Some stats \<Rightarrow> Return ())"

definition updateStats_prog ::
  "breaker \<Rightarrow> CircuitBreakerStats \<Rightarrow> (CircuitBreakerStats \<Rightarrow> CircuitBreakerStats) \<Rightarrow> unit prog" where
  "updateStats_prog b stats updates =
     Now (\<lambda>now.
       Put (stateStore b) (serviceKey b) ((updates stats)\<lparr>lastUpdateTime := Some now\<rparr>)
         (Return ()))"

definition transitionToHalfOpen_prog :: "breaker \<Rightarrow> unit prog" where
  "transitionToHalfOpen_prog b =
     Get (stateStore b) (serviceKey b) (\<lambda>stats'.
       case stats' of
         None \<Rightarrow> Return ()
       | Some stats \<Rightarrow>
           if state stats \<noteq> OPEN then Return ()
           else await_call
                  (updateStats_prog b stats
                     (\<lambda>s. s\<lparr> state := HALF_OPEN, failureCount := 0,
                              failedRequests := failedRequests stats \<rparr>))
                  (\<lambda>u. Emit (stateChange_event OPEN HALF_OPEN) (Return ())))"

definition transitionToOpen_prog :: "breaker \<Rightarrow> thrown \<Rightarrow> thrown option prog" where
  "transitionToOpen_prog b error =
     Get (stateStore b) (serviceKey b) (\<lambda>stats'.
       case stats' of
         None \<Rightarrow> Return None
       | Some stats \<Rightarrow>
           if state stats = OPEN then Return None
           else Now (\<lambda>now.
                  case message error of
                    Inl typeError \<Rightarrow> Return (Some typeError)
                  | Inr lastError' \<Rightarrow>
                      await_call
                        (updateStats_prog b stats
                           (\<lambda>s. s\<lparr> state := OPEN, lastFailureTime := Some now,
                                    lastError := lastError',
                                    failureCount := failureThreshold (options b) \<rparr>))
                        (\<lambda>u. Emit (stateChange_event (state stats) OPEN)
                                (Emit (circuitOpen_event error) (Return None)))))"

definition transitionToClosed_prog :: "breaker \<Rightarrow> unit prog" where
  "transitionToClosed_prog b =
     Get (stateStore b) (serviceKey b) (\<lambda>stats'.
       case stats' of
         None \<Rightarrow> Return ()
       | Some stats \<Rightarrow>
           if state stats = CLOSED then Return ()
           else Now (\<lambda>now.
                  await_call
                    (updateStats_prog b stats
                       (\<lambda>s. s\<lparr> state := CLOSED, failureCount := 0,
                                failedRequests := 0, lastSuccessTime := Some now \<rparr>))
                    (\<lambda>u. Emit (stateChange_event (state stats) CLOSED) (Return ()))))"

definition recordSuccess_prog :: "breaker \<Rightarrow> unit prog" where
  "recordSuccess_prog b =
     Get (stateStore b) (serviceKey b) (\<lambda>stats'.
       case stats' of
         None \<Rightarrow> Return ()
       | Some stats \<Rightarrow>
           Now (\<lambda>now. Fields (\<lambda>w.
             updateStats_prog b stats
               (\<lambda>s. s\<lparr> successfulRequests := successfulRequests stats + 1,
                        totalRequests := totalRequests stats + 1,
                        lastSuccessTime := Some now,
                        averageResponseTime := Some (calculateAverageResponseTime w),
                        currentLoad := Some (int (fcard (activeRequests w))) \<rparr>))))"

definition recordFailure_prog :: "breaker \<Rightarrow> thrown \<Rightarrow> thrown option prog" where
  "recordFailure_prog b error =
     Get (stateStore b) (serviceKey b) (\<lambda>stats'.
       case stats' of
         None \<Rightarrow> Return None
       | Some stats \<Rightarrow>
           await_call (incrementFailureCount_prog (stateStore b) (serviceKey b))
             (\<lambda>failureCount'.
                case message error of
                  Inl typeError \<Rightarrow> Return (Some typeError)
                | Inr lastError' \<Rightarrow>
                    Now (\<lambda>now. Fields (\<lambda>w.
                      await_call
                        (updateStats_prog b stats
                           (\<lambda>s. s\<lparr> failedRequests := failedRequests stats + 1,
                                    totalRequests := totalRequests stats + 1,
                                    lastError := lastError',
                                    failureCount := failureCount',
                                    lastFailureTime := Some now,
                                    averageResponseTime := Some (calculateAverageResponseTime w),
                                    currentLoad := Some (int (fcard (activeRequests w))) \<rparr>))
                        (\<lambda>u. Emit (failure_event error)
                                (if state stats = HALF_OPEN
                                    \<or> failureCount' \<ge> failureThreshold (options b)
                                 then await_call (transitionToOpen_prog b error) Return
                                 else Return None))))))"

definition performHealthCheck_prog :: "breaker \<Rightarrow> unit prog" where
  "performHealthCheck_prog b =
     Get (stateStore b) (serviceKey b) (\<lambda>stats'.
       case stats' of
         None \<Rightarrow> Return ()
       | Some stats \<Rightarrow>
           Now (\<lambda>now.
             let lastFailureTime' = nullish (lastFailureTime stats) 0;
                 update_metrics =
                   Fields (\<lambda>w.
                     let updatedStats = stats
                           \<lparr> currentLoad := Some (int (fcard (activeRequests w))),
                             averageResponseTime := Some (calculateAverageResponseTime w),
                             lastMinuteRequests := Some (int (length (requestTimes w))),
                             lastUpdateTime := Some now \<rparr>
                     in Put (stateStore b) (serviceKey b) updatedStats
                          (Emit (healthCheck_event updatedStats) (Return ())))
             in if state stats = OPEN \<and> now - lastFailureTime' \<ge> resetTimeout (options b)
                then Get (stateStore b) (serviceKey b) (\<lambda>currentStats.
                       if (case currentStats of
                             None \<Rightarrow> False
                           | Some cs \<Rightarrow> state cs = OPEN)
                       then await_call (transitionToHalfOpen_prog b) Return
                       else update_metrics)
                else update_metrics))"

text \<open>\<^verbatim>\<open>execute\<close>: the request after the race, the admission, the open-circuit check, the whole.\<close>

definition settle_prog :: "breaker \<Rightarrow> admission \<Rightarrow> 'a settles \<Rightarrow> 'a outcome prog" where
  "settle_prog b adm serviceCall =
     (case race (options b) serviceCall of
        Pending \<Rightarrow> Return Hangs
      | Resolves result \<Rightarrow>
          Now (\<lambda>t.
            Sync (recordResponseTime (t - startTime adm)) (\<lambda>w.
              await_call (recordSuccess_prog b) (\<lambda>u.
                bind_prog
                  (if state (loadedStats adm) = HALF_OPEN
                   then await_call (transitionToClosed_prog b) Return
                   else Return ())
                  (\<lambda>u. Sync (cleanup_request (requestId adm)) (\<lambda>w. Return (Returned result))))))
      | Rejects error \<Rightarrow>
          await_call (recordFailure_prog b error) (\<lambda>typeError.
            Sync (cleanup_request (requestId adm)) (\<lambda>w.
              Return (Threw (case typeError of None \<Rightarrow> error | Some e \<Rightarrow> e)))))"

definition admit_prog :: "breaker \<Rightarrow> 'a settles \<Rightarrow> CircuitBreakerStats \<Rightarrow> 'a outcome prog" where
  "admit_prog b serviceCall stats =
     Sync (\<lambda>w. snd (admit b stats w)) (\<lambda>w.
       case fst (admit b stats w) of
         Inl e \<Rightarrow> Return (Threw e)
       | Inr adm \<Rightarrow> Sync invoke (\<lambda>w. Yield (settle_prog b adm serviceCall)))"

definition reload_prog ::
  "breaker \<Rightarrow> (CircuitBreakerStats \<Rightarrow> 'a outcome prog) \<Rightarrow> 'a outcome prog" where
  "reload_prog b continue =
     Get (stateStore b) (serviceKey b) (\<lambda>stats'.
       case stats' of
         None \<Rightarrow> Return (Threw (Error ''Cannot read properties of null''))
       | Some stats \<Rightarrow> continue stats)"

definition gate_prog :: "breaker \<Rightarrow> 'a settles \<Rightarrow> CircuitBreakerStats \<Rightarrow> 'a outcome prog" where
  "gate_prog b serviceCall stats =
     (if state stats = OPEN
      then Now (\<lambda>now.
             let lastFailureTime' = nullish (lastFailureTime stats) 0
             in if now - lastFailureTime' \<ge> resetTimeout (options b)
                then await_call (transitionToHalfOpen_prog b)
                       (\<lambda>u. reload_prog b (admit_prog b serviceCall))
                else Return (Threw (Error ''Circuit breaker is OPEN'')))
      else admit_prog b serviceCall stats)"

definition execute_prog :: "breaker \<Rightarrow> 'a settles \<Rightarrow> 'a outcome prog" where
  "execute_prog b serviceCall =
     Get (stateStore b) (serviceKey b) (\<lambda>stats'.
       case stats' of
         None \<Rightarrow> await_call (initializeState_prog b)
                   (\<lambda>u. reload_prog b (gate_prog b serviceCall))
       | Some stats \<Rightarrow> gate_prog b serviceCall stats)"

subsection \<open>Overlapping operations of one breaker\<close>

text \<open>
  The operations whose overlap is considered, each as a task that discards its result.
\<close>

datatype 'a operation =
    Op_execute "'a settles"
  | Op_performHealthCheck
  | Op_recordSuccess
  | Op_recordFailure thrown
  | Op_transitionToHalfOpen
  | Op_transitionToOpen thrown
  | Op_transitionToClosed
  | Op_initializeState

definition discard :: "'a prog \<Rightarrow> unit prog" where
  "discard p = bind_prog p (\<lambda>x. Return ())"

fun program :: "breaker \<Rightarrow> 'a operation \<Rightarrow> unit prog" where
  "program b (Op_execute serviceCall) = discard (execute_prog b serviceCall)"
| "program b Op_performHealthCheck = performHealthCheck_prog b"
| "program b Op_recordSuccess = recordSuccess_prog b"
| "program b (Op_recordFailure error) = discard (recordFailure_prog b error)"
| "program b Op_transitionToHalfOpen = transitionToHalfOpen_prog b"
| "program b (Op_transitionToOpen error) = discard (transitionToOpen_prog b error)"
| "program b Op_transitionToClosed = transitionToClosed_prog b"
| "program b Op_initializeState = initializeState_prog b"

text \<open>
  A pool of tasks over one world. A schedule names, turn by turn, the task that runs
  next (a number past the end of the pool is an idle turn; a finished task stays as it
  is). \<open>turns\<close> lists the world after each turn.
\<close>

definition turn :: "nat \<Rightarrow> unit prog list \<times> world \<Rightarrow> unit prog list \<times> world" where
  "turn i pool =
     (if i < length (fst pool)
      then (list_update (fst pool) i (fst (resume (fst pool ! i) (snd pool))),
            snd (resume (fst pool ! i) (snd pool)))
      else pool)"

fun turns :: "nat list \<Rightarrow> unit prog list \<times> world \<Rightarrow> world list" where
  "turns [] pool = []"
| "turns (i # schedule) pool = snd (turn i pool) # turns schedule (turn i pool)"

text \<open>The records a key holds along a list of worlds.\<close>

definition records :: "breaker \<Rightarrow> world list \<Rightarrow> CircuitBreakerStats option list" where
  "records b ws = map (getState (stateStore b) (serviceKey b)) ws"

subsection \<open>Interleaved steps of one breaker\<close>

text \<open>
  Calls overlap: between the admission of a call and its settlement other calls are
  admitted and settle, the health-check timer fires, and other processes write to the
  store. A step is one of these; \<open>run\<close> performs a sequence of them. An admitted
  call invokes its service call in the same step; a settlement names the admission it
  belongs to and what the service call did. A step is taken whole here; the turns of
  the programs above are the finer view, down to each \<^verbatim>\<open>await\<close>.
\<close>

datatype 'a step =
    Call
  | Settle admission "'a settles"
  | HealthCheck
  | StoreWrite string "CircuitBreakerStats option"

fun perform :: "breaker \<Rightarrow> 'a step \<Rightarrow> world \<Rightarrow> world" where
  "perform b Call w =
     (case execute_admission b w of
        (Inl e, w1) \<Rightarrow> w1
      | (Inr adm, w1) \<Rightarrow> invoke w1)"
| "perform b (Settle adm serviceCall) w = snd (settle_request b adm serviceCall w)"
| "perform b HealthCheck w = performHealthCheck b w"
| "perform b (StoreWrite key v) w = w\<lparr>kv := (kv w)(key := v)\<rparr>"

definition run :: "breaker \<Rightarrow> 'a step list \<Rightarrow> world \<Rightarrow> world" where
  "run b steps w = foldl (\<lambda>w' s. perform b s w') w steps"

subsection \<open>\<^verbatim>\<open>ShardedCircuitBreakerFactory\<close>\<close>

text \<open>Decimal rendering of numbers inside template strings.\<close>

fun digits :: "nat \<Rightarrow> string" where
  "digits n = (if n < 10 then [char_of (48 + n)]
               else digits (n div 10) @ [char_of (48 + n mod 10)])"

declare digits.simps [simp del]

definition show_int :: "int \<Rightarrow> string" where
  "show_int i = (if i < 0 then ''-'' @ digits (nat (- i)) else digits (nat i))"

definition quoted :: "string \<Rightarrow> string" where
  "quoted s = [CHR 0x22] @ s @ [CHR 0x22]"

text \<open>\<^verbatim>\<open>s.includes(search)\<close>: \<open>search\<close> occurs in \<open>s\<close> as a contiguous substring.\<close>

fun starts_with :: "string \<Rightarrow> string \<Rightarrow> bool" where
  "starts_with s [] = True"
| "starts_with [] (p # ps) = False"
| "starts_with (c # cs) (p # ps) = (c = p \<and> starts_with cs ps)"

fun includes_str :: "string \<Rightarrow> string \<Rightarrow> bool" where
  "includes_str [] search = (search = [])"
| "includes_str (c # cs) search = (starts_with (c # cs) search \<or> includes_str cs search)"

text \<open>
  The registry \<^verbatim>\<open>serviceBreakers\<close>. A shard id is a JavaScript number; \<open>None\<close> is
  \<^verbatim>\<open>NaN\<close>, which \<^verbatim>\<open>getShardIdForKey\<close> returns for a service with no shards.
\<close>

record ShardedCircuitBreakerFactory =
  serviceBreakers :: "string \<rightharpoonup> breaker list"

type_synonym ShardId = "int option"

record 'a ServiceCallResult =
  success :: bool
  data :: "'a option"
  error :: "thrown option"
  service :: string
  shardId :: ShardId
  responseTime :: "int option"
  circuitOpen :: "bool option"

definition getServiceBreakers ::
  "ShardedCircuitBreakerFactory \<Rightarrow> string \<Rightarrow> thrown + breaker list" where
  "getServiceBreakers fac serviceName =
     (case serviceBreakers fac serviceName of
        None \<Rightarrow> Inl (Error (''Service '' @ quoted serviceName
                      @ '' not found. Create it first with createServiceBreakers().''))
      | Some breakers \<Rightarrow> Inr breakers)"

text \<open>
  \<^verbatim>\<open>getServiceBreaker\<close>: both comparisons are false for \<^verbatim>\<open>NaN\<close>, and
  \<^verbatim>\<open>breakers[NaN]\<close> is \<^verbatim>\<open>undefined\<close> (\<open>None\<close>).
\<close>

definition getServiceBreaker ::
  "ShardedCircuitBreakerFactory \<Rightarrow> string \<Rightarrow> ShardId \<Rightarrow> thrown + breaker option" where
  "getServiceBreaker fac serviceName shardId' =
     (case getServiceBreakers fac serviceName of
        Inl e \<Rightarrow> Inl e
      | Inr breakers \<Rightarrow>
          (case shardId' of
             None \<Rightarrow> Inr None
           | Some i \<Rightarrow>
               if i < 0 \<or> i \<ge> int (length breakers)
               then Inl (Error (''Invalid shard ID '' @ quoted (show_int i) @ '' for service ''
                          @ quoted serviceName @ ''. Valid range: 0-''
                          @ show_int (int (length breakers) - 1) @ ''.''))
               else Inr (Some (breakers ! nat i))))"

text \<open>
  \<^verbatim>\<open>error instanceof Error && error.message.includes('Circuit breaker is OPEN')\<close>
\<close>

fun circuitOpen_of :: "thrown \<Rightarrow> bool" where
  "circuitOpen_of (Error m) = includes_str m ''Circuit breaker is OPEN''"
| "circuitOpen_of (NonError m v) = False"
| "circuitOpen_of Null = False"
| "circuitOpen_of Undefined = False"

text \<open>\<^verbatim>\<open>error instanceof Error ? error : new Error(String(error))\<close>\<close>

fun as_Error :: "thrown \<Rightarrow> thrown" where
  "as_Error (Error m) = Error m"
| "as_Error (NonError m v) = Error v"
| "as_Error Null = Error ''null''"
| "as_Error Undefined = Error ''undefined''"

text \<open>
  \<^verbatim>\<open>executeServiceCall\<close>. The world is that of the breaker the call is routed to.
  The registry errors of \<^verbatim>\<open>getServiceBreaker\<close> are thrown before the \<^verbatim>\<open>try\<close>; an
  \<^verbatim>\<open>undefined\<close> breaker fails with a \<^verbatim>\<open>TypeError\<close> inside it (its message is cut
  short here). Shard ids that are not integers are left out.
\<close>

definition executeServiceCall ::
  "ShardedCircuitBreakerFactory \<Rightarrow> string \<Rightarrow> ShardId \<Rightarrow> 'a settles \<Rightarrow> world
     \<Rightarrow> 'a ServiceCallResult outcome \<times> world" where
  "executeServiceCall fac serviceName shardId' serviceCall w =
     (case getServiceBreaker fac serviceName shardId' of
        Inl e \<Rightarrow> (Threw e, w)
      | Inr breaker' \<Rightarrow>
          let (startTime', w1) = Date_now w;
              (r, w2) = (case breaker' of
                           None \<Rightarrow> (Threw (Error ''Cannot read properties of undefined''), w1)
                         | Some b \<Rightarrow> execute b serviceCall w1)
          in (case r of
                Returned result \<Rightarrow>
                  (let (t, w3) = Date_now w2
                   in (Returned \<lparr> success = True, data = Some result, error = None,
                                   service = serviceName, shardId = shardId',
                                   responseTime = Some (t - startTime'), circuitOpen = None \<rparr>, w3))
              | Threw error' \<Rightarrow>
                  (let (t, w3) = Date_now w2
                   in (Returned \<lparr> success = False, data = None, error = Some (as_Error error'),
                                   service = serviceName, shardId = shardId',
                                   responseTime = Some (t - startTime'),
                                   circuitOpen = Some (circuitOpen_of error') \<rparr>, w3))
              | Hangs \<Rightarrow> (Hangs, w2)))"

definition executeWithKey ::
  "ShardedCircuitBreakerFactory \<Rightarrow> string \<Rightarrow> jsstring \<Rightarrow> 'a settles \<Rightarrow> world
     \<Rightarrow> 'a ServiceCallResult outcome \<times> world" where
  "executeWithKey fac serviceName key serviceCall w =
     (case getServiceBreakers fac serviceName of
        Inl e \<Rightarrow> (Threw e, w)
      | Inr breakers \<Rightarrow>
          let shardId' = getShardIdForKey key (length breakers)
          in executeServiceCall fac serviceName shardId' serviceCall w)"

subsection \<open>Vocabulary of the theorems\<close>

text \<open>
  \<open>untouched w w'\<close>: from \<open>w\<close> to \<open>w'\<close> the breaker's in-memory fields, the
  fresh-symbol counter, the invocation counter and the clock function are the same,
  and no \<^verbatim>\<open>rejected\<close> event was emitted. It holds across every store operation and
  every transition.
\<close>

definition untouched :: "world \<Rightarrow> world \<Rightarrow> bool" where
  "untouched w w' =
     (activeRequests w' = activeRequests w \<and> invoked w' = invoked w
      \<and> symbols w' = symbols w \<and> clock w' = clock w
      \<and> requestTimes w' = requestTimes w \<and> responseTimes w' = responseTimes w
      \<and> errorTimes w' = errorTimes w \<and> watchers w' = watchers w
      \<and> filter is_rejected_event (emitted w') = filter is_rejected_event (emitted w))"

text \<open>The record written by \<^verbatim>\<open>recordFailure\<close> before it considers the transition.\<close>

definition failure_written :: "string option \<Rightarrow> world \<Rightarrow> CircuitBreakerStats \<Rightarrow> CircuitBreakerStats" where
  "failure_written lastError' w s =
     s\<lparr> failedRequests := failedRequests s + 1, totalRequests := totalRequests s + 1,
        lastError := lastError', failureCount := failureCount s + 1,
        lastFailureTime := Some (clock w (Suc (reads w))),
        averageResponseTime := Some (calculateAverageResponseTime w),
        currentLoad := Some (int (fcard (activeRequests w))),
        lastUpdateTime := Some (clock w (Suc (Suc (reads w)))) \<rparr>"

text \<open>The record left by the store's \<^verbatim>\<open>incrementFailureCount\<close> on a present key.\<close>

fun incremented :: "StateStore \<Rightarrow> world \<Rightarrow> CircuitBreakerStats \<Rightarrow> CircuitBreakerStats" where
  "incremented EtcdStateStore w s =
     s\<lparr> failureCount := failureCount s + 1, failedRequests := failedRequests s + 1,
        totalRequests := totalRequests s + 1, lastFailureTime := Some (clock w (reads w)) \<rparr>"
| "incremented InMemoryStateStore w s =
     s\<lparr> failureCount := failureCount s + 1, failedRequests := failedRequests s + 1,
        lastFailureTime := Some (clock w (reads w)), lastUpdateTime := Some (clock w (reads w)) \<rparr>"

text \<open>
  The open-circuit gate of \<^verbatim>\<open>execute\<close> rejects: the persisted state is OPEN and the
  cool-down has not elapsed at the first clock reading.
\<close>

definition open_and_cooling :: "breaker \<Rightarrow> world \<Rightarrow> bool" where
  "open_and_cooling b w =
     (case getState (stateStore b) (serviceKey b) w of
        None \<Rightarrow> False
      | Some s \<Rightarrow> state s = OPEN
                 \<and> clock w (reads w) - nullish (lastFailureTime s) 0 < resetTimeout (options b))"

text \<open>
  A call closes the circuit: it is admitted with stats loaded in HALF_OPEN and its
  service call resolves before the deadline.
\<close>

definition closes_circuit :: "breaker \<Rightarrow> 'a settles \<Rightarrow> world \<Rightarrow> bool" where
  "closes_circuit b serviceCall w =
     (case fst (execute_admission b w) of
        Inl e \<Rightarrow> False
      | Inr adm \<Rightarrow>
          state (loadedStats adm) = HALF_OPEN
          \<and> (case race (options b) serviceCall of
                 Resolves v \<Rightarrow> True | Rejects e \<Rightarrow> False | Pending \<Rightarrow> False))"

text \<open>Neither \<^verbatim>\<open>totalRequests\<close> nor \<^verbatim>\<open>successfulRequests\<close> is smaller in \<open>r\<close> than in \<open>s\<close>.\<close>

definition totals_le :: "CircuitBreakerStats \<Rightarrow> CircuitBreakerStats \<Rightarrow> bool" where
  "totals_le s r =
     (totalRequests s \<le> totalRequests r \<and> successfulRequests s \<le> successfulRequests r)"

text \<open>
  \<open>advanced s r\<close>: the record \<open>r\<close> carries the lifetime counters of \<open>s\<close> forward.
  Neither total is smaller, and \<open>failedRequests\<close> is not smaller either, unless \<open>r\<close>
  is the record of a circuit just closed, where it is 0.
\<close>

definition advanced :: "CircuitBreakerStats \<Rightarrow> CircuitBreakerStats \<Rightarrow> bool" where
  "advanced s r =
     (totals_le s r
      \<and> (failedRequests s \<le> failedRequests r \<or> (state r = CLOSED \<and> failedRequests r = 0)))"

text \<open>
  \<open>advances earlier rs\<close>: along the list \<open>rs\<close> of the records a key holds turn after
  turn, the key is always present and each record carries forward the counters of some
  record the key held before it (one of \<open>earlier\<close>, or one of \<open>rs\<close> to its left), not
  necessarily the one it replaces.
\<close>

fun advances :: "CircuitBreakerStats list \<Rightarrow> CircuitBreakerStats option list \<Rightarrow> bool" where
  "advances earlier [] = True"
| "advances earlier (None # later) = False"
| "advances earlier (Some r # later) =
     (list_ex (\<lambda>s. advanced s r) earlier \<and> advances (earlier @ [r]) later)"

text \<open>
  \<open>derived p st key H\<close>, the invariant behind \<open>advances\<close>: the program \<open>p\<close> reads and
  writes the store only at \<open>key\<close> of \<open>st\<close>, its code between awaits leaves that record
  alone, and every record it writes carries forward the counters of a record it has read
  before (or one of \<open>H\<close>, the records read so far), or follows a read that found the key
  absent.
\<close>

primrec derived ::
  "'a prog \<Rightarrow> StateStore \<Rightarrow> string \<Rightarrow> CircuitBreakerStats option set \<Rightarrow> bool" where
  "derived (Return a) st key H = True"
| "derived (Sync e k) st key H =
     (\<forall>w. getState st key (e w) = getState st key w \<and> derived (k w) st key H)"
| "derived (Get st' key' k) st key H =
     (st' = st \<and> key' = key \<and> (\<forall>s. derived (k s) st key (insert s H)))"
| "derived (Put st' key' v p) st key H =
     (st' = st \<and> key' = key
      \<and> (\<exists>u\<in>H. case u of None \<Rightarrow> True | Some s \<Rightarrow> advanced s v)
      \<and> derived p st key H)"
| "derived (Yield p) st key H = derived p st key H"

text \<open>At most \<open>m\<close> requests are in flight.\<close>

definition under_cap :: "int \<Rightarrow> world \<Rightarrow> bool" where
  "under_cap m w = (int (fcard (activeRequests w)) \<le> m)"

text \<open>
  \<open>keeps P p\<close>: no code of the program \<open>p\<close> between two awaits, and none of its
  store writes, leads from a world where \<open>P\<close> holds to one where it does not.
\<close>

primrec keeps :: "(world \<Rightarrow> bool) \<Rightarrow> 'a prog \<Rightarrow> bool" where
  "keeps P (Return a) = True"
| "keeps P (Sync e k) = (\<forall>w. P w \<longrightarrow> P (e w) \<and> keeps P (k w))"
| "keeps P (Get st key k) = (\<forall>s. keeps P (k s))"
| "keeps P (Put st key v p) = ((\<forall>w. P w \<longrightarrow> P (setState st key v w)) \<and> keeps P p)"
| "keeps P (Yield p) = keeps P p"

text \<open>The value of a settled call.\<close>

fun returned :: "'a outcome \<Rightarrow> 'a option" where
  "returned (Returned v) = Some v"
| "returned (Threw e) = None"
| "returned Hangs = None"

subsection \<open>Concrete breakers and worlds\<close>

text \<open>
  The configuration of the test suite: \<^verbatim>\<open>failureThreshold: 3, resetTimeout: 1000,
  serviceTimeout: 500\<close>, here with \<^verbatim>\<open>maxConcurrent: 2\<close>.
\<close>

definition test_options :: CircuitBreakerOptions where
  "test_options = constructor_options
     \<lparr> p_failureThreshold = Some 3, p_resetTimeout = Some 1000,
       p_halfOpenRetryLimit = None, p_monitorInterval = None,
       p_serviceTimeout = Some 500, p_maxConcurrent = Some 2 \<rparr>"

definition test_breaker :: "StateStore \<Rightarrow> breaker" where
  "test_breaker st = \<lparr> serviceKey = ''test-service'', stateStore = st, options = test_options \<rparr>"

text \<open>A clock that starts at 5000 ms and advances 10 ms per reading.\<close>

definition test_clock :: "nat \<Rightarrow> int" where
  "test_clock k = 5000 + 10 * int k"

definition test_stats :: "CircuitBreakerState \<Rightarrow> int \<Rightarrow> int option \<Rightarrow> CircuitBreakerStats" where
  "test_stats sta failures lastFailure =
     \<lparr> state = sta, failureCount = failures, lastFailureTime = lastFailure,
       lastSuccessTime = None, totalRequests = 7, successfulRequests = 4,
       failedRequests = 3, lastError = None, currentLoad = None,
       averageResponseTime = None, lastMinuteRequests = None, lastUpdateTime = None \<rparr>"

text \<open>A world with an empty store, and one holding a record for \<^verbatim>\<open>test-service\<close>.\<close>

definition empty_world :: world where
  "empty_world =
     \<lparr> kv = Map.empty, watchers = {''test-service''}, activeRequests = {||},
       requestTimes = [], errorTimes = [], responseTimes = [], emitted = [],
       symbols = 0, invoked = 0, clock = test_clock, reads = 0 \<rparr>"

definition test_world :: "StateStore \<Rightarrow> CircuitBreakerStats \<Rightarrow> world" where
  "test_world st stats = empty_world\<lparr>kv := [storeKey st ''test-service'' \<mapsto> stats]\<rparr>"

text \<open>A factory with one service, \<^verbatim>\<open>payment\<close>, of two shards on an in-memory store.\<close>

definition payment_shard :: "string \<Rightarrow> breaker" where
  "payment_shard key = \<lparr> serviceKey = key, stateStore = InMemoryStateStore,
                          options = test_options \<rparr>"

definition payment_factory :: ShardedCircuitBreakerFactory where
  "payment_factory =
     \<lparr> serviceBreakers =
         [''payment'' \<mapsto> [payment_shard ''payment-0'', payment_shard ''payment-1'']] \<rparr>"

definition payment_world :: world where
  "payment_world = empty_world\<lparr>kv := [''payment-0'' \<mapsto> test_stats CLOSED 0 None]\<rparr>"

subsection \<open>Routing: proofs\<close>

lemma wrap_shift:
  fixes m :: int
  assumes "0 \<le> m" "m < 2 * H" "0 < H"
  shows "(m + H) mod (2 * H) - H = (if m \<ge> H then m - 2 * H else m)"
proof (cases "m \<ge> H")
  case True
  have "(m + H) mod (2 * H) = (m + H - 2 * H) mod (2 * H)"
    using minus_mod_self2 [of "m + H" "2 * H"] by simp
  also have "\<dots> = m + H - 2 * H"
    using True assms by (intro mod_pos_pos_trivial) auto
  finally show ?thesis using True by simp
next
  case False
  have "(m + H) mod (2 * H) = m + H"
    using False assms by (intro mod_pos_pos_trivial) auto
  then show ?thesis using False by simp
qed

lemma ToInt32_shift: "ToInt32 x = (x + 2 ^ 31) mod 2 ^ 32 - 2 ^ 31"
proof -
  let ?m = "x mod 2 ^ 32"
  have m: "0 \<le> ?m" "?m < 2 * 2 ^ 31" by simp_all
  have "(x + 2 ^ 31) mod 2 ^ 32 = (?m + 2 ^ 31) mod (2 * 2 ^ 31)"
    by (simp add: mod_add_left_eq)
  then have "(x + 2 ^ 31) mod 2 ^ 32 - 2 ^ 31 = (if ?m \<ge> 2 ^ 31 then ?m - 2 * 2 ^ 31 else ?m)"
    using wrap_shift [OF m] by simp
  then show ?thesis by (simp add: ToInt32_def Let_def)
qed

lemma ToInt32_sint: "ToInt32 x = sint (word_of_int x :: 32 word)"
proof -
  have "sint (word_of_int x :: 32 word) = signed_take_bit 31 x"
    by (simp add: sint_sbintrunc')
  also have "\<dots> = take_bit 32 (x + 2 ^ 31) - 2 ^ 31"
    by (simp add: signed_take_bit_eq_take_bit_shift)
  also have "\<dots> = (x + 2 ^ 31) mod 2 ^ 32 - 2 ^ 31"
    by (simp add: take_bit_eq_mod)
  finally show ?thesis by (simp add: ToInt32_shift)
qed

lemma shl5_sint: "shl5 (sint (h :: 32 word)) = sint (push_bit 5 h)"
  by (simp add: shl5_def ToInt32_sint push_bit_eq_mult)

lemma hash_step_sint:
  "hash_step (sint (h :: 32 word)) (uint (c :: 16 word)) = sint (spec_djb2_step h c)"
proof -
  have "(word_of_int (uint c) :: 32 word) = ucast c"
    by (simp add: word_of_int_uint)
  then show ?thesis
    by (simp add: hash_step_def spec_djb2_step_def shl5_sint ToInt32_sint)
qed

lemma foldl_hash_step_sint:
  "foldl hash_step (sint (h :: 32 word)) (map uint cs) = sint (foldl spec_djb2_step h cs)"
  by (induction cs arbitrary: h) (simp_all add: hash_step_sint)

lemma key_hash_eq_spec: "key_hash key = sint (spec_djb2 key)"
  using foldl_hash_step_sint [of 0 key]
  by (simp add: key_hash_def charCodes_def spec_djb2_def)

lemma key_hash_range: "- (2 ^ 31) \<le> key_hash key \<and> key_hash key < 2 ^ 31"
proof -
  have "- (2 ^ (LENGTH(32) - 1)) \<le> sint (spec_djb2 key)"
    by (rule sint_ge)
  moreover have "sint (spec_djb2 key) < 2 ^ (LENGTH(32) - 1)"
    by (rule sint_lt)
  ultimately show ?thesis by (simp add: key_hash_eq_spec)
qed

text \<open>
  C5. For every key and every shard count \<open>n \<ge> 1\<close>, the routing function returns
  \<open>abs(h) mod n\<close> where \<open>h\<close> is the djb2-style hash \<open>h = ((h << 5) - h) + c\<close> over
  the key's character codes under 32-bit wrap-around; the result is a function of the
  key and \<open>n\<close> alone, so equal keys with equal shard counts get equal shard ids.
\<close>

theorem getShardIdForKey_is_djb2:
  assumes "1 \<le> n"
  shows "getShardIdForKey key n = Some (spec_routeKey key n)"
  using assms
  by (simp add: getShardIdForKey_def spec_routeKey_def key_hash_eq_spec Let_def)

text \<open>
  C10. For every key and every shard count \<open>n \<ge> 1\<close>, \<^verbatim>\<open>getShardIdForKey\<close> returns a
  number (it is total, and the result is not \<^verbatim>\<open>NaN\<close>) in the range \<open>[0, n)\<close>; this
  covers the empty key and keys whose hash is negative or \<open>-2^31\<close>.
\<close>

theorem getShardIdForKey_in_range:
  assumes "1 \<le> n"
  shows "\<exists>s. getShardIdForKey key n = Some s \<and> 0 \<le> s \<and> s < int n"
  using assms by (simp add: getShardIdForKey_def Let_def)

theorem getShardIdForKey_is_djb2_witness:
  "(1::nat) \<le> 4
   \<and> getShardIdForKey (ascii ''user-123'') 4 = Some (spec_routeKey (ascii ''user-123'') 4)
   \<and> spec_routeKey (ascii ''user-123'') 4 = 0"
proof -
  have h: "(1::nat) \<le> 4" by simp
  have v: "spec_routeKey (ascii ''user-123'') 4 = 0" by code_simp
  show ?thesis
    using h v getShardIdForKey_is_djb2 [OF h, of "ascii ''user-123''"] by simp
qed

theorem getShardIdForKey_in_range_witness:
  "(1::nat) \<le> 3
   \<and> key_hash (ascii ''polygenelubricants'') = - (2 ^ 31)
   \<and> (\<exists>s. getShardIdForKey (ascii ''polygenelubricants'') 3 = Some s \<and> 0 \<le> s \<and> s < int 3)"
proof -
  have h: "(1::nat) \<le> 3" by simp
  have v: "key_hash (ascii ''polygenelubricants'') = - (2 ^ 31)" by code_simp
  show ?thesis
    using h v getShardIdForKey_in_range [OF h, of "ascii ''polygenelubricants''"] by simp
qed

subsection \<open>Store and breaker: basic facts\<close>


lemmas store_defs = getState_def notifyWatchers_def emit_def Date_now_def

declare setState.simps [simp del] incrementFailureCount.simps [simp del]
  resetStats.simps [simp del]

subsection \<open>Frames\<close>

lemma untouched_refl: "untouched w w"
  by (simp add: untouched_def)

lemma untouched_reads: "untouched w w1 \<Longrightarrow> untouched w (w1\<lparr>reads := n\<rparr>)"
  by (simp add: untouched_def)

lemma untouched_emit:
  "\<not> is_rejected_event e \<Longrightarrow> untouched w w1 \<Longrightarrow> untouched w (emit e w1)"
  by (simp add: untouched_def emit_def)

lemma untouched_setState: "untouched w w1 \<Longrightarrow> untouched w (setState st k s w1)"
  by (cases st) (simp_all add: untouched_def store_defs setState.simps)

lemma untouched_updateStats: "untouched w w1 \<Longrightarrow> untouched w (updateStats b stats upd w1)"
  by (simp add: updateStats_def Date_now_def Let_def untouched_setState untouched_reads)

lemma untouched_incrementFailureCount:
  "untouched w w1 \<Longrightarrow> untouched w (snd (incrementFailureCount st k w1))"
  by (cases st)
     (simp_all add: incrementFailureCount.simps Date_now_def Let_def untouched_setState
        untouched_reads untouched_refl split: option.splits)

lemmas untouched_basic =
  untouched_refl untouched_reads untouched_emit untouched_setState untouched_updateStats
  untouched_incrementFailureCount

lemma untouched_initializeState: "untouched w w1 \<Longrightarrow> untouched w (initializeState b w1)"
  by (simp add: initializeState_def Date_now_def Let_def untouched_basic split: option.splits)

lemma untouched_transitionToHalfOpen:
  "untouched w w1 \<Longrightarrow> untouched w (transitionToHalfOpen b w1)"
  by (simp add: transitionToHalfOpen_def Let_def untouched_basic split: option.splits)

lemma untouched_transitionToOpen:
  "untouched w w1 \<Longrightarrow> untouched w (snd (transitionToOpen b err w1))"
  by (simp add: transitionToOpen_def Date_now_def Let_def untouched_basic
        split: option.splits sum.splits)

lemma untouched_transitionToClosed:
  "untouched w w1 \<Longrightarrow> untouched w (transitionToClosed b w1)"
  by (simp add: transitionToClosed_def Date_now_def Let_def untouched_basic split: option.splits)

lemma untouched_recordSuccess: "untouched w w1 \<Longrightarrow> untouched w (recordSuccess b w1)"
  by (simp add: recordSuccess_def Date_now_def Let_def untouched_basic split: option.splits)

lemma untouched_recordFailure:
  "untouched w w1 \<Longrightarrow> untouched w (snd (recordFailure b err w1))"
  by (simp add: recordFailure_def Date_now_def Let_def case_prod_beta untouched_basic
        untouched_transitionToOpen split: option.splits sum.splits)

lemma untouched_performHealthCheck:
  "untouched w w1 \<Longrightarrow> untouched w (performHealthCheck b w1)"
  by (simp add: performHealthCheck_def Date_now_def Let_def untouched_basic
        untouched_transitionToHalfOpen split: option.splits)

subsection \<open>What the operations do to the persisted record and the clock\<close>

lemma untouched_clock: "untouched w w1 \<Longrightarrow> clock w1 = clock w"
  by (simp add: untouched_def)

lemma getState_reads: "getState st k (w\<lparr>reads := n\<rparr>) = getState st k w"
  by (simp add: getState_def)

lemma getState_emit: "getState st k (emit e w) = getState st k w"
  by (simp add: getState_def emit_def)

lemma getState_setState: "getState st k (setState st k s w) = Some s"
  by (cases st) (simp_all add: store_defs setState.simps)

lemma reads_emit: "reads (emit e w) = reads w"
  by (simp add: emit_def)

lemma reads_setState: "reads (setState st k s w) = reads w"
  by (cases st) (simp_all add: store_defs setState.simps)

lemma getState_updateStats:
  "getState (stateStore b) (serviceKey b) (updateStats b stats upd w)
     = Some ((upd stats)\<lparr>lastUpdateTime := Some (clock w (reads w))\<rparr>)"
  by (simp add: updateStats_def Date_now_def Let_def getState_setState)

lemma reads_updateStats: "reads (updateStats b stats upd w) = Suc (reads w)"
  by (simp add: updateStats_def Date_now_def Let_def reads_setState)

lemma incrementFailureCount_present:
  assumes "getState st k w = Some s"
  shows "fst (incrementFailureCount st k w) = failureCount s + 1"
    and "reads (snd (incrementFailureCount st k w)) = Suc (reads w)"
  using assms
  by (cases st; simp add: incrementFailureCount.simps Date_now_def Let_def reads_setState)+

lemma getState_incrementFailureCount:
  assumes "getState st k w = Some s"
  shows "getState st k (snd (incrementFailureCount st k w)) = Some (incremented st w s)"
  using assms
  by (cases st) (simp_all add: incrementFailureCount.simps Date_now_def Let_def getState_setState)

lemma getState_transitionToOpen:
  assumes "getState (stateStore b) (serviceKey b) w = Some s" "state s \<noteq> OPEN"
    and "message err = Inr m"
  shows "getState (stateStore b) (serviceKey b) (snd (transitionToOpen b err w))
           = Some (s\<lparr> state := OPEN, lastFailureTime := Some (clock w (reads w)),
                      lastError := m, failureCount := failureThreshold (options b),
                      lastUpdateTime := Some (clock w (Suc (reads w))) \<rparr>)"
    and "fst (transitionToOpen b err w) = None"
  using assms
  by (simp_all add: transitionToOpen_def Date_now_def Let_def getState_emit getState_updateStats)

lemma transitionToOpen_TypeError:
  assumes "getState (stateStore b) (serviceKey b) w = Some s" "state s \<noteq> OPEN"
    and "message err = Inl t"
  shows "transitionToOpen b err w = (Some t, w\<lparr>reads := Suc (reads w)\<rparr>)"
  using assms by (simp add: transitionToOpen_def Date_now_def Let_def)

lemma transitionToOpen_already_open:
  assumes "getState (stateStore b) (serviceKey b) w = Some s" "state s = OPEN"
  shows "transitionToOpen b err w = (None, w)"
  using assms by (simp add: transitionToOpen_def)

lemma getState_transitionToHalfOpen:
  assumes "getState (stateStore b) (serviceKey b) w = Some s" "state s = OPEN"
  shows "getState (stateStore b) (serviceKey b) (transitionToHalfOpen b w)
           = Some (s\<lparr> state := HALF_OPEN, failureCount := 0,
                      lastUpdateTime := Some (clock w (reads w)) \<rparr>)"
  using assms
  by (simp add: transitionToHalfOpen_def Let_def getState_emit getState_updateStats)

lemma getState_transitionToClosed:
  assumes "getState (stateStore b) (serviceKey b) w = Some s" "state s \<noteq> CLOSED"
  shows "getState (stateStore b) (serviceKey b) (transitionToClosed b w)
           = Some (s\<lparr> state := CLOSED, failureCount := 0, failedRequests := 0,
                      lastSuccessTime := Some (clock w (reads w)),
                      lastUpdateTime := Some (clock w (Suc (reads w))) \<rparr>)"
  using assms
  by (simp add: transitionToClosed_def Date_now_def Let_def getState_emit getState_updateStats)

lemma getState_recordSuccess:
  assumes "getState (stateStore b) (serviceKey b) w = Some s"
  shows "getState (stateStore b) (serviceKey b) (recordSuccess b w)
           = Some (s\<lparr> successfulRequests := successfulRequests s + 1,
                      totalRequests := totalRequests s + 1,
                      lastSuccessTime := Some (clock w (reads w)),
                      averageResponseTime := Some (calculateAverageResponseTime w),
                      currentLoad := Some (int (fcard (activeRequests w))),
                      lastUpdateTime := Some (clock w (Suc (reads w))) \<rparr>)"
  using assms
  by (simp add: recordSuccess_def Date_now_def Let_def getState_updateStats
        calculateAverageResponseTime_def)

text \<open>
  A rejection with \<^verbatim>\<open>null\<close> or \<^verbatim>\<open>undefined\<close>: \<^verbatim>\<open>recordFailure\<close> stops at
  \<^verbatim>\<open>error.message\<close>, after the store's increment and before its own write.
\<close>

lemma recordFailure_TypeError:
  assumes "getState (stateStore b) (serviceKey b) w = Some s" "message err = Inl t"
  shows "recordFailure b err w
           = (Some t, snd (incrementFailureCount (stateStore b) (serviceKey b) w))"
  using assms by (simp add: recordFailure_def case_prod_beta)

lemma getState_recordFailure_TypeError:
  assumes "getState (stateStore b) (serviceKey b) w = Some s" "message err = Inl t"
  shows "getState (stateStore b) (serviceKey b) (snd (recordFailure b err w))
           = Some (incremented (stateStore b) w s)"
  by (simp add: recordFailure_TypeError [OF assms] getState_incrementFailureCount [OF assms(1)])

lemma getState_recordFailure:
  assumes "getState (stateStore b) (serviceKey b) w = Some s" "message err = Inr m"
  shows "getState (stateStore b) (serviceKey b) (snd (recordFailure b err w))
           = Some (if state s = HALF_OPEN \<or> failureThreshold (options b) \<le> failureCount s + 1
                   then if state s = OPEN then failure_written m w s
                        else (failure_written m w s)
                          \<lparr> state := OPEN,
                            lastFailureTime := Some (clock w (Suc (Suc (Suc (reads w))))),
                            lastError := m,
                            failureCount := failureThreshold (options b),
                            lastUpdateTime := Some (clock w (Suc (Suc (Suc (Suc (reads w)))))) \<rparr>
                   else failure_written m w s)"
    and "fst (recordFailure b err w) = None"
proof -
  define w1 where "w1 = snd (incrementFailureCount (stateStore b) (serviceKey b) w)"
  define w2 where "w2 = w1\<lparr>reads := Suc (reads w1)\<rparr>"
  define upd where "upd = (\<lambda>s'::CircuitBreakerStats. s'\<lparr> failedRequests := failedRequests s + 1,
                              totalRequests := totalRequests s + 1,
                              lastError := m,
                              failureCount := fst (incrementFailureCount (stateStore b) (serviceKey b) w),
                              lastFailureTime := Some (clock w1 (reads w1)),
                              averageResponseTime := Some (calculateAverageResponseTime w2),
                              currentLoad := Some (int (fcard (activeRequests w2))) \<rparr>)"
  define w4 where "w4 = emit (failure_event err) (updateStats b s upd w2)"
  have u1: "untouched w w1"
    unfolding w1_def by (rule untouched_incrementFailureCount [OF untouched_refl])
  have r1: "reads w1 = Suc (reads w)"
    unfolding w1_def by (rule incrementFailureCount_present(2) [OF assms(1)])
  have c1: "clock w1 = clock w"
    by (rule untouched_clock [OF u1])
  have u2: "untouched w w2"
    unfolding w2_def by (rule untouched_reads [OF u1])
  have r2: "reads w2 = Suc (Suc (reads w))"
    by (simp add: w2_def r1)
  have c2: "clock w2 = clock w"
    by (rule untouched_clock [OF u2])
  have avg: "calculateAverageResponseTime w2 = calculateAverageResponseTime w"
    using u2 by (simp add: calculateAverageResponseTime_def untouched_def)
  have act: "activeRequests w2 = activeRequests w"
    using u2 by (simp add: untouched_def)
  have fc: "fst (incrementFailureCount (stateStore b) (serviceKey b) w) = failureCount s + 1"
    by (rule incrementFailureCount_present(1) [OF assms(1)])
  have g4: "getState (stateStore b) (serviceKey b) w4 = Some (failure_written m w s)"
    by (simp add: w4_def getState_emit getState_updateStats upd_def failure_written_def
          r1 c1 r2 c2 fc avg act)
  have r4: "reads w4 = Suc (Suc (Suc (reads w)))"
    by (simp add: w4_def reads_emit reads_updateStats r2)
  have c4: "clock w4 = clock w"
    by (simp add: w4_def emit_def untouched_clock [OF untouched_updateStats [OF u2]])
  have st4: "state (failure_written m w s) = state s"
    by (simp add: failure_written_def)
  have unfold: "recordFailure b err w =
      (if state s = HALF_OPEN \<or> failureThreshold (options b) \<le> failureCount s + 1
       then transitionToOpen b err w4 else (None, w4))"
    using assms
    by (simp add: recordFailure_def Let_def case_prod_beta Date_now_def w4_def upd_def
          w2_def w1_def fc)
  have both: "getState (stateStore b) (serviceKey b) (snd (recordFailure b err w))
           = Some (if state s = HALF_OPEN \<or> failureThreshold (options b) \<le> failureCount s + 1
                   then if state s = OPEN then failure_written m w s
                        else (failure_written m w s)
                          \<lparr> state := OPEN,
                            lastFailureTime := Some (clock w (Suc (Suc (Suc (reads w))))),
                            lastError := m,
                            failureCount := failureThreshold (options b),
                            lastUpdateTime := Some (clock w (Suc (Suc (Suc (Suc (reads w)))))) \<rparr>
                   else failure_written m w s)
        \<and> fst (recordFailure b err w) = None"
  proof (cases "state s = HALF_OPEN \<or> failureThreshold (options b) \<le> failureCount s + 1")
    case False
    then show ?thesis using unfold g4 by simp
  next
    case trip: True
    show ?thesis
    proof (cases "state s = OPEN")
      case True
      then have "transitionToOpen b err w4 = (None, w4)"
        using transitionToOpen_already_open [OF g4] st4 by simp
      then show ?thesis using unfold g4 trip True by simp
    next
      case False
      then have "state (failure_written m w s) \<noteq> OPEN" using st4 by simp
      from getState_transitionToOpen [OF g4 this assms(2)]
      show ?thesis using unfold trip False by (simp add: r4 c4)
    qed
  qed
  show "getState (stateStore b) (serviceKey b) (snd (recordFailure b err w))
           = Some (if state s = HALF_OPEN \<or> failureThreshold (options b) \<le> failureCount s + 1
                   then if state s = OPEN then failure_written m w s
                        else (failure_written m w s)
                          \<lparr> state := OPEN,
                            lastFailureTime := Some (clock w (Suc (Suc (Suc (reads w))))),
                            lastError := m,
                            failureCount := failureThreshold (options b),
                            lastUpdateTime := Some (clock w (Suc (Suc (Suc (Suc (reads w)))))) \<rparr>
                   else failure_written m w s)"
    using both by blast
  show "fst (recordFailure b err w) = None"
    using both by blast
qed

subsection \<open>Admission\<close>

lemma admit_overloaded:
  assumes "maxConcurrent (options b) = Some m" "m \<le> int (fcard (activeRequests w))"
  shows "admit b stats w = (Inl (Error ''Maximum concurrent requests exceeded''), w)"
  using assms by (simp add: admit_def)

lemma admit_admitted:
  assumes "fst (admit b stats w) = Inr adm"
  shows "admit b stats w =
           (Inr \<lparr>requestId = symbols w, startTime = clock w (reads w), loadedStats = stats\<rparr>,
            w\<lparr> symbols := Suc (symbols w),
               activeRequests := finsert (symbols w) (activeRequests w),
               reads := Suc (reads w),
               requestTimes := requestTimes w @ [clock w (reads w)] \<rparr>)"
    and "case maxConcurrent (options b) of None \<Rightarrow> True
         | Some m \<Rightarrow> int (fcard (activeRequests w)) < m"
  using assms
  by (simp_all add: admit_def Date_now_def Let_def split: if_splits option.splits)

lemma execute_admission_not_open:
  assumes "getState (stateStore b) (serviceKey b) w = Some s" "state s \<noteq> OPEN"
  shows "execute_admission b w = admit b s w"
  using assms by (simp add: execute_admission_def gate_def)

lemma execute_admission_cooling:
  assumes "getState (stateStore b) (serviceKey b) w = Some s" "state s = OPEN"
    and "clock w (reads w) - nullish (lastFailureTime s) 0 < resetTimeout (options b)"
  shows "execute_admission b w
           = (Inl (Error ''Circuit breaker is OPEN''), w\<lparr>reads := Suc (reads w)\<rparr>)"
  using assms by (simp add: execute_admission_def gate_def Date_now_def Let_def)

lemma execute_admission_elapsed:
  assumes "getState (stateStore b) (serviceKey b) w = Some s" "state s = OPEN"
    and "resetTimeout (options b) \<le> clock w (reads w) - nullish (lastFailureTime s) 0"
  shows "execute_admission b w
           = admit b (s\<lparr> state := HALF_OPEN, failureCount := 0,
                          lastUpdateTime := Some (clock w (Suc (reads w))) \<rparr>)
               (transitionToHalfOpen b (w\<lparr>reads := Suc (reads w)\<rparr>))"
proof -
  let ?w1 = "w\<lparr>reads := Suc (reads w)\<rparr>"
  have g1: "getState (stateStore b) (serviceKey b) ?w1 = Some s"
    using assms(1) by (simp add: getState_reads)
  from getState_transitionToHalfOpen [OF g1 assms(2)]
  show ?thesis
    using assms by (simp add: execute_admission_def gate_def reload_def Date_now_def Let_def)
qed

lemma getState_admit:
  "getState st k (snd (admit b stats w)) = getState st k w"
  by (simp add: admit_def Date_now_def Let_def getState_def)

lemma getState_cleanup_request:
  "getState st k (cleanup_request rid w) = getState st k w"
  by (simp add: cleanup_request_def Let_def getState_def emit_def)

lemma getState_invoked: "getState st k (w\<lparr>invoked := n\<rparr>) = getState st k w"
  by (simp add: getState_def)

lemma execute_rejects:
  assumes "race (options b) serviceCall = Rejects err"
  shows "execute_request b adm serviceCall w
           = (Threw (case fst (recordFailure b err (w\<lparr>invoked := Suc (invoked w)\<rparr>)) of
                       None \<Rightarrow> err | Some e \<Rightarrow> e),
              cleanup_request (requestId adm)
                (snd (recordFailure b err (w\<lparr>invoked := Suc (invoked w)\<rparr>))))"
  using assms
  by (simp add: execute_request_def settle_request_def invoke_def Let_def case_prod_beta)

subsection \<open>The state machine\<close>


lemmas test_defs =
  test_options_def test_breaker_def test_clock_def test_stats_def empty_world_def
  test_world_def constructor_options_def nullish_def getKey_def

text \<open>
  For every rejection whose \<^verbatim>\<open>.message\<close> can be read (anything but \<^verbatim>\<open>null\<close> and
  \<^verbatim>\<open>undefined\<close>), a failure at the threshold opens a CLOSED circuit: the persisted
  record then has \<open>state = OPEN\<close>, \<open>failureCount = failureThreshold\<close>,
  \<open>lastFailureTime\<close> the clock reading taken by \<^verbatim>\<open>transitionToOpen\<close> (the fourth
  reading of \<^verbatim>\<open>recordFailure\<close>, the fifth of an \<^verbatim>\<open>execute\<close>), and \<open>lastError\<close>
  the value of \<^verbatim>\<open>error.message\<close>. This holds for \<^verbatim>\<open>recordFailure\<close> itself and for
  every admitted \<^verbatim>\<open>execute\<close> whose service call rejects or times out.
\<close>

lemma readable_failure_trips_open:
  assumes "getState (stateStore b) (serviceKey b) w = Some s"
    and "state s = CLOSED"
    and "failureThreshold (options b) \<le> fst (incrementFailureCount (stateStore b) (serviceKey b) w)"
    and "message err = Inr m"
  shows "(\<exists>r. getState (stateStore b) (serviceKey b) (snd (recordFailure b err w)) = Some r
              \<and> state r = OPEN \<and> failureCount r = failureThreshold (options b)
              \<and> lastFailureTime r = Some (clock w (reads w + 3))
              \<and> lastError r = m)
         \<and> (\<forall>adm serviceCall.
                fst (execute_admission b w) = Inr adm \<and> race (options b) serviceCall = Rejects err
                \<longrightarrow> fst (execute b serviceCall w) = Threw err
                    \<and> (\<exists>r. getState (stateStore b) (serviceKey b) (snd (execute b serviceCall w)) = Some r
                          \<and> state r = OPEN \<and> failureCount r = failureThreshold (options b)
                          \<and> lastFailureTime r = Some (clock w (reads w + 4))
                          \<and> lastError r = m))"
proof -
  have trip: "failureThreshold (options b) \<le> failureCount s + 1"
    using assms(3) incrementFailureCount_present(1) [OF assms(1)] by simp
  have direct: "\<exists>r. getState (stateStore b) (serviceKey b) (snd (recordFailure b err w)) = Some r
              \<and> state r = OPEN \<and> failureCount r = failureThreshold (options b)
              \<and> lastFailureTime r = Some (clock w (reads w + 3))
              \<and> lastError r = m"
    using getState_recordFailure(1) [OF assms(1) assms(4)] trip assms(2)
    by (simp add: failure_written_def eval_nat_numeral)
  have through: "fst (execute b serviceCall w) = Threw err
        \<and> (\<exists>r. getState (stateStore b) (serviceKey b) (snd (execute b serviceCall w)) = Some r
              \<and> state r = OPEN \<and> failureCount r = failureThreshold (options b)
              \<and> lastFailureTime r = Some (clock w (reads w + 4))
              \<and> lastError r = m)"
    if adm: "fst (execute_admission b w) = Inr adm"
      and rej: "race (options b) serviceCall = Rejects err"
    for adm and serviceCall :: "'a settles"
  proof -
    have ea: "execute_admission b w = admit b s w"
      using execute_admission_not_open [OF assms(1)] assms(2) by simp
    define wa where "wa = snd (admit b s w)"
    have adm': "fst (admit b s w) = Inr adm" using adm ea by simp
    have wa_eq: "admit b s w = (Inr adm, wa)"
      using adm' by (simp add: wa_def prod_eq_iff)
    let ?w1 = "wa\<lparr>invoked := Suc (invoked wa)\<rparr>"
    have g1: "getState (stateStore b) (serviceKey b) ?w1 = Some s"
      using assms(1) by (simp add: getState_invoked wa_def getState_admit)
    have rc: "reads ?w1 = Suc (reads w)" "clock ?w1 = clock w"
      using admit_admitted(1) [OF adm'] by (simp_all add: wa_def)
    have ex: "execute b serviceCall w
                = (Threw err, cleanup_request (requestId adm) (snd (recordFailure b err ?w1)))"
      by (simp add: execute_def ea wa_eq execute_rejects [OF rej]
            getState_recordFailure(2) [OF g1 assms(4)])
    show ?thesis
      using getState_recordFailure(1) [OF g1 assms(4)] trip assms(2)
      by (simp add: ex getState_cleanup_request failure_written_def rc eval_nat_numeral)
  qed
  show ?thesis using direct through by blast
qed

lemma incremented_fields:
  "state (incremented st w s) = state s"
  "failureCount (incremented st w s) = failureCount s + 1"
  "lastError (incremented st w s) = lastError s"
  "failedRequests (incremented st w s) = failedRequests s + 1"
  "successfulRequests (incremented st w s) = successfulRequests s"
  "totalRequests s \<le> totalRequests (incremented st w s)"
  by (cases st; simp)+

text \<open>
  A rejection with \<^verbatim>\<open>null\<close> or \<^verbatim>\<open>undefined\<close> never opens the circuit: an admitted
  \<^verbatim>\<open>execute\<close> rejects with the \<^verbatim>\<open>TypeError\<close> and leaves the record as the
  store's increment wrote it, in the state it had.
\<close>

lemma execute_unreadable_rejection:
  assumes "getState (stateStore b) (serviceKey b) w = Some s" "state s \<noteq> OPEN"
    and "fst (execute_admission b w) = Inr adm"
    and "race (options b) serviceCall = Rejects err"
    and "message err = Inl t"
  shows "fst (execute b serviceCall w) = Threw t
         \<and> (\<exists>r. getState (stateStore b) (serviceKey b) (snd (execute b serviceCall w)) = Some r
                \<and> state r = state s \<and> failureCount r = failureCount s + 1
                \<and> lastError r = lastError s)"
proof -
  have ea: "execute_admission b w = admit b s w"
    by (rule execute_admission_not_open [OF assms(1,2)])
  define wa where "wa = snd (admit b s w)"
  have adm': "fst (admit b s w) = Inr adm" using assms(3) ea by simp
  have wa_eq: "admit b s w = (Inr adm, wa)"
    using adm' by (simp add: wa_def prod_eq_iff)
  let ?w1 = "wa\<lparr>invoked := Suc (invoked wa)\<rparr>"
  have g1: "getState (stateStore b) (serviceKey b) ?w1 = Some s"
    using assms(1) by (simp add: getState_invoked wa_def getState_admit)
  have ex: "execute b serviceCall w
              = (Threw t, cleanup_request (requestId adm) (snd (recordFailure b err ?w1)))"
    by (simp add: execute_def ea wa_eq execute_rejects [OF assms(4)]
          recordFailure_TypeError [OF g1 assms(5)])
  show ?thesis
    by (simp add: ex getState_cleanup_request getState_recordFailure_TypeError [OF g1 assms(5)]
          incremented_fields)
qed

text \<open>
  C1. The claim is that in CLOSED every failing call whose failure count reaches
  \<^verbatim>\<open>failureThreshold\<close> opens the circuit and leaves \<open>state = OPEN\<close>,
  \<open>failureCount = failureThreshold\<close> and \<open>lastError\<close> the error's message. The code
  misses the rejections with \<^verbatim>\<open>undefined\<close> or \<^verbatim>\<open>null\<close>
  (\<^verbatim>\<open>execute(() => Promise.reject())\<close>): with \<^verbatim>\<open>failureThreshold = 3\<close> and a CLOSED
  record of two failures, on either store, the count returned by
  \<^verbatim>\<open>incrementFailureCount\<close> is 3, \<^verbatim>\<open>execute\<close> rejects with the \<^verbatim>\<open>TypeError\<close>
  thrown at \<^verbatim>\<open>error.message\<close>, and the persisted record stays CLOSED with
  \<open>failureCount = 3\<close> and no \<open>lastError\<close>.
\<close>

theorem undefined_rejection_at_threshold_stays_closed:
  "failureThreshold (options (test_breaker InMemoryStateStore))
     \<le> fst (incrementFailureCount InMemoryStateStore ''test-service''
              (test_world InMemoryStateStore (test_stats CLOSED 2 None)))
   \<and> fst (execute (test_breaker InMemoryStateStore) (Rejects Undefined :: unit settles)
            (test_world InMemoryStateStore (test_stats CLOSED 2 None)))
       = Threw (Error ''Cannot read properties of undefined'')
   \<and> map_option state
        (getState InMemoryStateStore ''test-service''
           (snd (execute (test_breaker InMemoryStateStore) (Rejects Undefined :: unit settles)
                   (test_world InMemoryStateStore (test_stats CLOSED 2 None))))) = Some CLOSED
   \<and> map_option failureCount
        (getState InMemoryStateStore ''test-service''
           (snd (execute (test_breaker InMemoryStateStore) (Rejects Undefined :: unit settles)
                   (test_world InMemoryStateStore (test_stats CLOSED 2 None))))) = Some 3
   \<and> map_option lastError
        (getState InMemoryStateStore ''test-service''
           (snd (execute (test_breaker InMemoryStateStore) (Rejects Undefined :: unit settles)
                   (test_world InMemoryStateStore (test_stats CLOSED 2 None))))) = Some None
   \<and> failureThreshold (options (test_breaker EtcdStateStore))
       \<le> fst (incrementFailureCount EtcdStateStore ''test-service''
                (test_world EtcdStateStore (test_stats CLOSED 2 None)))
   \<and> fst (execute (test_breaker EtcdStateStore) (Rejects Null :: unit settles)
            (test_world EtcdStateStore (test_stats CLOSED 2 None)))
       = Threw (Error ''Cannot read properties of null'')
   \<and> map_option state
        (getState EtcdStateStore ''test-service''
           (snd (execute (test_breaker EtcdStateStore) (Rejects Null :: unit settles)
                   (test_world EtcdStateStore (test_stats CLOSED 2 None))))) = Some CLOSED
   \<and> map_option failureCount
        (getState EtcdStateStore ''test-service''
           (snd (execute (test_breaker EtcdStateStore) (Rejects Null :: unit settles)
                   (test_world EtcdStateStore (test_stats CLOSED 2 None))))) = Some 3"
proof -
  have one: "failureThreshold (options (test_breaker st))
               \<le> fst (incrementFailureCount st ''test-service'' (test_world st (test_stats CLOSED 2 None)))
        \<and> fst (execute (test_breaker st) (Rejects err :: unit settles)
                 (test_world st (test_stats CLOSED 2 None))) = Threw t
        \<and> (\<exists>r. getState st ''test-service''
                   (snd (execute (test_breaker st) (Rejects err :: unit settles)
                           (test_world st (test_stats CLOSED 2 None)))) = Some r
               \<and> state r = CLOSED \<and> failureCount r = 3 \<and> lastError r = None)"
    if unreadable: "message err = Inl t" for st err t
  proof -
    let ?b = "test_breaker st"
    let ?s = "test_stats CLOSED 2 None"
    let ?w = "test_world st ?s"
    let ?adm = "\<lparr>requestId = 0, startTime = 5000, loadedStats = ?s\<rparr>"
    have k: "stateStore ?b = st" "serviceKey ?b = ''test-service''"
      by (simp_all add: test_breaker_def)
    have h1: "getState (stateStore ?b) (serviceKey ?b) ?w = Some ?s"
      by (cases st) (simp_all add: test_defs getState_def)
    have h2: "state ?s \<noteq> OPEN" "state ?s = CLOSED" "failureCount ?s = 2" "lastError ?s = None"
      by (simp_all add: test_stats_def)
    have h3: "failureThreshold (options ?b) \<le> fst (incrementFailureCount st ''test-service'' ?w)"
      using incrementFailureCount_present(1) [OF h1] unfolding k by (simp add: test_defs)
    have ea: "execute_admission ?b ?w = admit ?b ?s ?w"
      by (rule execute_admission_not_open [OF h1 h2(1)])
    have h4: "fst (execute_admission ?b ?w) = Inr ?adm"
      unfolding ea by (simp add: admit_def Date_now_def Let_def test_defs fcard_fempty)
    have h5: "race (options ?b) (Rejects err :: unit settles) = Rejects err"
      by simp
    from execute_unreadable_rejection [OF h1 h2(1) h4 h5 unreadable] h3 h2
    show ?thesis unfolding k by simp
  qed
  show ?thesis
    using one [of Undefined "Error ''Cannot read properties of undefined''" InMemoryStateStore]
      one [of Null "Error ''Cannot read properties of null''" EtcdStateStore]
    by auto
qed

text \<open>
  C2. For a breaker whose persisted state is OPEN, if \<open>now - lastFailureTime \<ge>
  resetTimeout\<close> at the moment \<^verbatim>\<open>execute\<close> is called or a health-check tick runs
  (\<open>now\<close> being the first clock reading of either), the breaker transitions to
  HALF_OPEN: the persisted record after the admission phase of \<^verbatim>\<open>execute\<close>, and
  after the health check, has \<open>state = HALF_OPEN\<close> and \<open>failureCount = 0\<close>, with
  \<open>totalRequests\<close>, \<open>successfulRequests\<close> and \<open>failedRequests\<close> unchanged.
\<close>

theorem open_elapsed_goes_half_open:
  assumes "getState (stateStore b) (serviceKey b) w = Some s"
    and "state s = OPEN"
    and "resetTimeout (options b) \<le> clock w (reads w) - nullish (lastFailureTime s) 0"
  shows "(\<exists>r. getState (stateStore b) (serviceKey b) (snd (execute_admission b w)) = Some r
              \<and> state r = HALF_OPEN \<and> failureCount r = 0
              \<and> totalRequests r = totalRequests s
              \<and> successfulRequests r = successfulRequests s
              \<and> failedRequests r = failedRequests s)
         \<and> (\<exists>r. getState (stateStore b) (serviceKey b) (performHealthCheck b w) = Some r
              \<and> state r = HALF_OPEN \<and> failureCount r = 0
              \<and> totalRequests r = totalRequests s
              \<and> successfulRequests r = successfulRequests s
              \<and> failedRequests r = failedRequests s)"
proof -
  let ?w1 = "w\<lparr>reads := Suc (reads w)\<rparr>"
  have g1: "getState (stateStore b) (serviceKey b) ?w1 = Some s"
    using assms(1) by (simp add: getState_reads)
  note half = getState_transitionToHalfOpen [OF g1 assms(2)]
  have adm: "getState (stateStore b) (serviceKey b) (snd (execute_admission b w))
               = getState (stateStore b) (serviceKey b) (transitionToHalfOpen b ?w1)"
    by (simp add: execute_admission_elapsed [OF assms] getState_admit)
  have hc: "performHealthCheck b w = transitionToHalfOpen b ?w1"
    using assms g1 by (simp add: performHealthCheck_def Date_now_def Let_def)
  show ?thesis
    by (simp add: adm hc half)
qed

theorem open_elapsed_goes_half_open_witness:
  "getState (stateStore (test_breaker EtcdStateStore)) (serviceKey (test_breaker EtcdStateStore))
     (test_world EtcdStateStore (test_stats OPEN 3 (Some 4000))) = Some (test_stats OPEN 3 (Some 4000))
   \<and> state (test_stats OPEN 3 (Some 4000)) = OPEN
   \<and> resetTimeout (options (test_breaker EtcdStateStore))
       \<le> clock (test_world EtcdStateStore (test_stats OPEN 3 (Some 4000)))
             (reads (test_world EtcdStateStore (test_stats OPEN 3 (Some 4000))))
           - nullish (lastFailureTime (test_stats OPEN 3 (Some 4000))) 0
   \<and> (\<exists>r. getState (stateStore (test_breaker EtcdStateStore)) (serviceKey (test_breaker EtcdStateStore))
             (snd (execute_admission (test_breaker EtcdStateStore)
                     (test_world EtcdStateStore (test_stats OPEN 3 (Some 4000))))) = Some r
          \<and> state r = HALF_OPEN \<and> failureCount r = 0 \<and> totalRequests r = 7
          \<and> successfulRequests r = 4 \<and> failedRequests r = 3)
   \<and> (\<exists>r. getState (stateStore (test_breaker EtcdStateStore)) (serviceKey (test_breaker EtcdStateStore))
             (performHealthCheck (test_breaker EtcdStateStore)
                (test_world EtcdStateStore (test_stats OPEN 3 (Some 4000)))) = Some r
          \<and> state r = HALF_OPEN \<and> failureCount r = 0 \<and> totalRequests r = 7
          \<and> successfulRequests r = 4 \<and> failedRequests r = 3)"
proof -
  let ?b = "test_breaker EtcdStateStore"
  let ?s = "test_stats OPEN 3 (Some 4000)"
  let ?w = "test_world EtcdStateStore ?s"
  have h1: "getState (stateStore ?b) (serviceKey ?b) ?w = Some ?s"
    by (simp add: test_defs getState_def)
  have h2: "state ?s = OPEN"
    by (simp add: test_stats_def)
  have h3: "resetTimeout (options ?b) \<le> clock ?w (reads ?w) - nullish (lastFailureTime ?s) 0"
    by (simp add: test_defs)
  have v: "totalRequests ?s = 7" "successfulRequests ?s = 4" "failedRequests ?s = 3"
    by (simp_all add: test_stats_def)
  show ?thesis
    using open_elapsed_goes_half_open [OF h1 h2 h3] h1 h2 h3 v by simp
qed

text \<open>
  C3. For a breaker whose persisted state is OPEN with \<open>now - lastFailureTime <
  resetTimeout\<close>, \<^verbatim>\<open>execute\<close> fails with the error
  \<^verbatim>\<open>Circuit breaker is OPEN\<close>; the service call is not invoked, the store is left
  as it was (so no counter changes and no transition happens), no event is emitted and
  no request is registered.
\<close>

theorem open_cooling_rejects:
  assumes "getState (stateStore b) (serviceKey b) w = Some s"
    and "state s = OPEN"
    and "clock w (reads w) - nullish (lastFailureTime s) 0 < resetTimeout (options b)"
  shows "fst (execute b serviceCall w) = Threw (Error ''Circuit breaker is OPEN'')
         \<and> invoked (snd (execute b serviceCall w)) = invoked w
         \<and> kv (snd (execute b serviceCall w)) = kv w
         \<and> getState (stateStore b) (serviceKey b) (snd (execute b serviceCall w)) = Some s
         \<and> emitted (snd (execute b serviceCall w)) = emitted w
         \<and> activeRequests (snd (execute b serviceCall w)) = activeRequests w"
  using assms
  by (simp add: execute_def execute_admission_cooling [OF assms] getState_reads)

theorem open_cooling_rejects_witness:
  "getState (stateStore (test_breaker EtcdStateStore)) (serviceKey (test_breaker EtcdStateStore))
     (test_world EtcdStateStore (test_stats OPEN 3 (Some 4500))) = Some (test_stats OPEN 3 (Some 4500))
   \<and> state (test_stats OPEN 3 (Some 4500)) = OPEN
   \<and> clock (test_world EtcdStateStore (test_stats OPEN 3 (Some 4500)))
         (reads (test_world EtcdStateStore (test_stats OPEN 3 (Some 4500))))
       - nullish (lastFailureTime (test_stats OPEN 3 (Some 4500))) 0
       < resetTimeout (options (test_breaker EtcdStateStore))
   \<and> fst (execute (test_breaker EtcdStateStore) (Resolves ())
            (test_world EtcdStateStore (test_stats OPEN 3 (Some 4500))))
       = Threw (Error ''Circuit breaker is OPEN'')
   \<and> invoked (snd (execute (test_breaker EtcdStateStore) (Resolves ())
            (test_world EtcdStateStore (test_stats OPEN 3 (Some 4500))))) = 0
   \<and> getState (stateStore (test_breaker EtcdStateStore)) (serviceKey (test_breaker EtcdStateStore))
        (snd (execute (test_breaker EtcdStateStore) (Resolves ())
            (test_world EtcdStateStore (test_stats OPEN 3 (Some 4500)))))
       = Some (test_stats OPEN 3 (Some 4500))"
proof -
  let ?b = "test_breaker EtcdStateStore"
  let ?s = "test_stats OPEN 3 (Some 4500)"
  let ?w = "test_world EtcdStateStore ?s"
  have h1: "getState (stateStore ?b) (serviceKey ?b) ?w = Some ?s"
    by (simp add: test_defs getState_def)
  have h2: "state ?s = OPEN"
    by (simp add: test_stats_def)
  have h3: "clock ?w (reads ?w) - nullish (lastFailureTime ?s) 0 < resetTimeout (options ?b)"
    by (simp add: test_defs)
  have v: "invoked ?w = 0"
    by (simp add: test_defs)
  show ?thesis
    using open_cooling_rejects [OF h1 h2 h3, of "Resolves ()"] h1 h2 h3 v by simp
qed

text \<open>
  C7, as stated for every store, fails for the in-memory store: on an absent key its
  \<^verbatim>\<open>incrementFailureCount\<close> returns 0 and materializes nothing.
\<close>

theorem incrementFailureCount_absent_InMemory_counterexample:
  "getState InMemoryStateStore ''test-service'' empty_world = None
   \<and> fst (incrementFailureCount InMemoryStateStore ''test-service'' empty_world) = 0
   \<and> getState InMemoryStateStore ''test-service''
        (snd (incrementFailureCount InMemoryStateStore ''test-service'' empty_world)) = None"
  by (simp add: incrementFailureCount.simps getState_def empty_world_def)

text \<open>
  C7, amended. On a key absent from the store, \<^verbatim>\<open>EtcdStateStore.incrementFailureCount\<close>
  materializes a fresh record with \<open>failureCount = failedRequests = totalRequests = 1\<close>
  and \<open>state = CLOSED\<close> and returns 1; \<^verbatim>\<open>InMemoryStateStore.incrementFailureCount\<close>
  returns 0 and leaves the store as it was.
\<close>

theorem incrementFailureCount_absent:
  assumes "getState st key w = None"
  shows "(st = EtcdStateStore \<longrightarrow>
            fst (incrementFailureCount st key w) = 1
            \<and> (\<exists>r. getState st key (snd (incrementFailureCount st key w)) = Some r
                   \<and> failureCount r = 1 \<and> failedRequests r = 1 \<and> totalRequests r = 1
                   \<and> state r = CLOSED))
         \<and> (st = InMemoryStateStore \<longrightarrow> incrementFailureCount st key w = (0, w))"
  using assms
  by (cases st)
     (simp_all add: incrementFailureCount.simps Date_now_def Let_def getState_setState)

theorem incrementFailureCount_absent_witness:
  "getState EtcdStateStore ''test-service'' empty_world = None
   \<and> fst (incrementFailureCount EtcdStateStore ''test-service'' empty_world) = 1
   \<and> (\<exists>r. getState EtcdStateStore ''test-service''
              (snd (incrementFailureCount EtcdStateStore ''test-service'' empty_world)) = Some r
          \<and> failureCount r = 1 \<and> failedRequests r = 1 \<and> totalRequests r = 1 \<and> state r = CLOSED)
   \<and> getState InMemoryStateStore ''test-service'' empty_world = None
   \<and> incrementFailureCount InMemoryStateStore ''test-service'' empty_world = (0, empty_world)"
proof -
  have h1: "getState EtcdStateStore ''test-service'' empty_world = None"
    by (simp add: getState_def empty_world_def)
  have h2: "getState InMemoryStateStore ''test-service'' empty_world = None"
    by (simp add: getState_def empty_world_def)
  show ?thesis
    using incrementFailureCount_absent [OF h1] incrementFailureCount_absent [OF h2] h1 h2
    by simp
qed

subsection \<open>The concurrency cap\<close>

lemma untouched_active: "untouched w w1 \<Longrightarrow> activeRequests w1 = activeRequests w"
  by (simp add: untouched_def)

lemma untouched_invoked: "untouched w w1 \<Longrightarrow> invoked w1 = invoked w"
  by (simp add: untouched_def)

lemma getState_initializeState:
  assumes "getState (stateStore b) (serviceKey b) w = None"
  shows "\<exists>s. getState (stateStore b) (serviceKey b) (initializeState b w) = Some s
             \<and> state s = CLOSED"
  using assms by (simp add: initializeState_def Date_now_def Let_def getState_setState)

text \<open>
  Every admission is either rejected at the open-circuit gate, or reaches the concurrency
  check after store operations that do not touch the in-memory fields.
\<close>

lemma execute_admission_cases:
  "(open_and_cooling b w
      \<and> execute_admission b w
          = (Inl (Error ''Circuit breaker is OPEN''), w\<lparr>reads := Suc (reads w)\<rparr>))
   \<or> (\<not> open_and_cooling b w
      \<and> (\<exists>stats w1. untouched w w1 \<and> execute_admission b w = admit b stats w1))"
proof (cases "getState (stateStore b) (serviceKey b) w")
  case None
  have nc: "\<not> open_and_cooling b w"
    using None by (simp add: open_and_cooling_def)
  from getState_initializeState [OF None] obtain s
    where s: "getState (stateStore b) (serviceKey b) (initializeState b w) = Some s"
      "state s = CLOSED" by blast
  have "execute_admission b w = admit b s (initializeState b w)"
    using None s by (simp add: execute_admission_def reload_def gate_def)
  moreover have "untouched w (initializeState b w)"
    by (rule untouched_initializeState [OF untouched_refl])
  ultimately show ?thesis using nc by blast
next
  case (Some s)
  show ?thesis
  proof (cases "state s = OPEN")
    case False
    have "\<not> open_and_cooling b w"
      using Some False by (simp add: open_and_cooling_def)
    moreover have "execute_admission b w = admit b s w"
      using execute_admission_not_open [OF Some False] .
    ultimately show ?thesis using untouched_refl by blast
  next
    case True
    show ?thesis
    proof (cases "clock w (reads w) - nullish (lastFailureTime s) 0 < resetTimeout (options b)")
      case cooling: True
      have "open_and_cooling b w"
        using Some True cooling by (simp add: open_and_cooling_def)
      then show ?thesis
        using execute_admission_cooling [OF Some True cooling] by simp
    next
      case False
      then have el: "resetTimeout (options b) \<le> clock w (reads w) - nullish (lastFailureTime s) 0"
        by simp
      have "\<not> open_and_cooling b w"
        using Some False by (simp add: open_and_cooling_def)
      moreover have "untouched w (transitionToHalfOpen b (w\<lparr>reads := Suc (reads w)\<rparr>))"
        by (rule untouched_transitionToHalfOpen [OF untouched_reads [OF untouched_refl]])
      ultimately show ?thesis
        using execute_admission_elapsed [OF Some True el] by blast
    qed
  qed
qed

lemma admit_active:
  "activeRequests (snd (admit b stats w))
     = (case fst (admit b stats w) of
          Inl e \<Rightarrow> activeRequests w
        | Inr adm \<Rightarrow> finsert (requestId adm) (activeRequests w))"
  by (simp add: admit_def Date_now_def Let_def)

lemma admit_invoked: "invoked (snd (admit b stats w)) = invoked w"
  by (simp add: admit_def Date_now_def Let_def)

lemma admit_bound:
  assumes "maxConcurrent (options b) = Some m" "int (fcard (activeRequests w)) \<le> m"
  shows "int (fcard (activeRequests (snd (admit b stats w)))) \<le> m"
proof (cases "m \<le> int (fcard (activeRequests w))")
  case True
  then show ?thesis using assms by (simp add: admit_overloaded [OF assms(1)])
next
  case False
  have "fcard (finsert (symbols w) (activeRequests w)) \<le> Suc (fcard (activeRequests w))"
    by (simp add: fcard_finsert_if)
  then show ?thesis
    using False assms(1) by (simp add: admit_def Date_now_def Let_def)
qed

lemma execute_admission_active:
  "activeRequests (snd (execute_admission b w))
     = (case fst (execute_admission b w) of
          Inl e \<Rightarrow> activeRequests w
        | Inr adm \<Rightarrow> finsert (requestId adm) (activeRequests w))"
proof (cases "open_and_cooling b w")
  case True
  then show ?thesis using execute_admission_cases [of b w] by auto
next
  case False
  with execute_admission_cases [of b w]
  obtain stats w1 where u: "untouched w w1" and e: "execute_admission b w = admit b stats w1"
    by auto
  show ?thesis
    by (simp add: e admit_active untouched_active [OF u] split: sum.splits)
qed

lemma execute_admission_invoked: "invoked (snd (execute_admission b w)) = invoked w"
proof (cases "open_and_cooling b w")
  case True
  then show ?thesis using execute_admission_cases [of b w] by auto
next
  case False
  with execute_admission_cases [of b w]
  obtain stats w1 where u: "untouched w w1" and e: "execute_admission b w = admit b stats w1"
    by auto
  show ?thesis
    by (simp add: e admit_invoked untouched_invoked [OF u])
qed

lemma execute_admission_bound:
  assumes "maxConcurrent (options b) = Some m" "int (fcard (activeRequests w)) \<le> m"
  shows "int (fcard (activeRequests (snd (execute_admission b w)))) \<le> m"
proof (cases "open_and_cooling b w")
  case True
  then show ?thesis using execute_admission_cases [of b w] assms(2) by auto
next
  case False
  with execute_admission_cases [of b w]
  obtain stats w1 where u: "untouched w w1" and e: "execute_admission b w = admit b stats w1"
    by auto
  have "int (fcard (activeRequests w1)) \<le> m"
    using assms(2) untouched_active [OF u] by simp
  from admit_bound [OF assms(1) this] show ?thesis by (simp add: e)
qed

lemma execute_admission_admitted_below_cap:
  assumes "maxConcurrent (options b) = Some m" "fst (execute_admission b w) = Inr adm"
  shows "int (fcard (activeRequests w)) < m"
proof -
  from execute_admission_cases [of b w] assms(2)
  obtain stats w1 where u: "untouched w w1" and e: "execute_admission b w = admit b stats w1"
    by auto
  have "fst (admit b stats w1) = Inr adm" using assms(2) e by simp
  from admit_admitted(2) [OF this] assms(1) untouched_active [OF u]
  show ?thesis by simp
qed

lemma execute_overloaded:
  assumes "maxConcurrent (options b) = Some m" "m \<le> int (fcard (activeRequests w))"
    and "\<not> open_and_cooling b w"
  shows "fst (execute_admission b w) = Inl (Error ''Maximum concurrent requests exceeded'')"
proof -
  from execute_admission_cases [of b w] assms(3)
  obtain stats w1 where u: "untouched w w1" and e: "execute_admission b w = admit b stats w1"
    by auto
  have "m \<le> int (fcard (activeRequests w1))"
    using assms(2) untouched_active [OF u] by simp
  from admit_overloaded [OF assms(1) this] e show ?thesis by simp
qed

lemma execute_rejected:
  assumes "fst (execute_admission b w) = Inl e"
  shows "execute b serviceCall w = (Threw e, snd (execute_admission b w))"
  using assms by (simp add: execute_def case_prod_beta)

lemma settle_request_active:
  "activeRequests (snd (settle_request b adm serviceCall w))
     = (case race (options b) serviceCall of
          Pending \<Rightarrow> activeRequests w
        | Resolves v \<Rightarrow> activeRequests w |-| {|requestId adm|}
        | Rejects e \<Rightarrow> activeRequests w |-| {|requestId adm|})"
proof -
  have rf: "activeRequests (snd (recordFailure b e w')) = activeRequests w'" for e w'
    by (rule untouched_active [OF untouched_recordFailure [OF untouched_refl]])
  have rs: "activeRequests (recordSuccess b w') = activeRequests w'" for w'
    by (rule untouched_active [OF untouched_recordSuccess [OF untouched_refl]])
  have tc: "activeRequests (transitionToClosed b w') = activeRequests w'" for w'
    by (rule untouched_active [OF untouched_transitionToClosed [OF untouched_refl]])
  show ?thesis
    by (simp add: settle_request_def Let_def Date_now_def
          recordResponseTime_def cleanup_request_def emit_def case_prod_beta rf rs tc
          split: settles.splits)
qed

lemma settle_request_bound:
  assumes "int (fcard (activeRequests w)) \<le> m"
  shows "int (fcard (activeRequests (snd (settle_request b adm serviceCall w)))) \<le> m"
proof -
  have "fcard (activeRequests w |-| {|requestId adm|}) \<le> fcard (activeRequests w)"
    by (rule fcard_fminus1_le)
  then show ?thesis
    using assms by (simp add: settle_request_active split: settles.splits)
qed

lemma perform_bound:
  assumes "maxConcurrent (options b) = Some m" "int (fcard (activeRequests w)) \<le> m"
  shows "int (fcard (activeRequests (perform b s w))) \<le> m"
proof (cases s)
  case Call
  have "activeRequests (perform b Call w) = activeRequests (snd (execute_admission b w))"
    by (simp add: invoke_def split: prod.splits sum.splits)
  then show ?thesis using Call execute_admission_bound [OF assms] by simp
next
  case (Settle adm serviceCall)
  then show ?thesis using settle_request_bound [OF assms(2)] by simp
next
  case HealthCheck
  then show ?thesis
    using assms(2) untouched_active [OF untouched_performHealthCheck [OF untouched_refl]]
    by simp
next
  case (StoreWrite key v)
  then show ?thesis using assms(2) by simp
qed

lemma run_bound:
  assumes "maxConcurrent (options b) = Some m"
  shows "int (fcard (activeRequests w)) \<le> m
         \<Longrightarrow> int (fcard (activeRequests (run b steps w))) \<le> m"
  unfolding run_def
  by (induction steps arbitrary: w) (simp_all add: perform_bound [OF assms])

text \<open>
  C4. For a breaker with a (non-negative) \<^verbatim>\<open>maxConcurrent\<close>, the number of in-flight
  requests in \<^verbatim>\<open>activeRequests\<close> never exceeds it: starting from the empty set, the
  bound holds after every sequence of admissions, settlements, health checks and foreign
  store writes. The concurrency check rejects with
  \<^verbatim>\<open>Maximum concurrent requests exceeded\<close> whenever \<open>activeRequests.size \<ge>
  maxConcurrent\<close>; so does \<^verbatim>\<open>execute\<close>, without invoking the service call, unless
  the open-circuit gate before it has already rejected the call. Only admitted calls are
  added to \<^verbatim>\<open>activeRequests\<close>, and a call is admitted only below the cap.
\<close>

theorem activeRequests_never_exceed_maxConcurrent:
  assumes "maxConcurrent (options b) = Some m" and "0 \<le> m"
  shows "(\<forall>steps w0. activeRequests w0 = {||}
            \<longrightarrow> int (fcard (activeRequests (run b steps w0))) \<le> m)
         \<and> (\<forall>stats w. m \<le> int (fcard (activeRequests w))
            \<longrightarrow> admit b stats w = (Inl (Error ''Maximum concurrent requests exceeded''), w))
         \<and> (\<forall>serviceCall w. m \<le> int (fcard (activeRequests w)) \<and> \<not> open_and_cooling b w
            \<longrightarrow> fst (execute b serviceCall w) = Threw (Error ''Maximum concurrent requests exceeded'')
                \<and> invoked (snd (execute b serviceCall w)) = invoked w
                \<and> activeRequests (snd (execute b serviceCall w)) = activeRequests w)
         \<and> (\<forall>w e. fst (execute_admission b w) = Inl e
            \<longrightarrow> activeRequests (snd (execute_admission b w)) = activeRequests w)
         \<and> (\<forall>w adm. fst (execute_admission b w) = Inr adm
            \<longrightarrow> int (fcard (activeRequests w)) < m
                \<and> activeRequests (snd (execute_admission b w))
                    = finsert (requestId adm) (activeRequests w))"
proof -
  have inv: "int (fcard (activeRequests (run b steps w0))) \<le> m"
    if "activeRequests w0 = {||}" for steps :: "'a step list" and w0
    using run_bound [OF assms(1), of w0 steps] that assms(2) by (simp add: fcard_fempty)
  have over: "fst (execute b serviceCall w) = Threw (Error ''Maximum concurrent requests exceeded'')
                \<and> invoked (snd (execute b serviceCall w)) = invoked w
                \<and> activeRequests (snd (execute b serviceCall w)) = activeRequests w"
    if "m \<le> int (fcard (activeRequests w))" "\<not> open_and_cooling b w"
    for serviceCall :: "'b settles" and w
  proof -
    note rej = execute_overloaded [OF assms(1) that]
    show ?thesis
      using rej execute_admission_active [of b w] execute_admission_invoked [of b w]
      by (simp add: execute_rejected [OF rej])
  qed
  have rejected: "activeRequests (snd (execute_admission b w)) = activeRequests w"
    if "fst (execute_admission b w) = Inl e" for w e
    using that execute_admission_active [of b w] by simp
  have admitted: "int (fcard (activeRequests w)) < m
                \<and> activeRequests (snd (execute_admission b w))
                    = finsert (requestId adm) (activeRequests w)"
    if "fst (execute_admission b w) = Inr adm" for w adm
    using that execute_admission_active [of b w]
      execute_admission_admitted_below_cap [OF assms(1) that] by simp
  show ?thesis
    using inv over rejected admitted admit_overloaded [OF assms(1)] by blast
qed

theorem activeRequests_never_exceed_maxConcurrent_witness:
  "maxConcurrent (options (test_breaker InMemoryStateStore)) = Some 2
   \<and> (0::int) \<le> 2
   \<and> activeRequests (test_world InMemoryStateStore (test_stats CLOSED 0 None)) = {||}
   \<and> int (fcard (activeRequests (run (test_breaker InMemoryStateStore) [Call, Call, Call :: unit step]
              (test_world InMemoryStateStore (test_stats CLOSED 0 None))))) \<le> 2
   \<and> activeRequests (run (test_breaker InMemoryStateStore) [Call, Call :: unit step]
         (test_world InMemoryStateStore (test_stats CLOSED 0 None))) = {|1, 0|}
   \<and> \<not> open_and_cooling (test_breaker InMemoryStateStore)
         (run (test_breaker InMemoryStateStore) [Call, Call :: unit step]
            (test_world InMemoryStateStore (test_stats CLOSED 0 None)))
   \<and> fst (execute (test_breaker InMemoryStateStore) (Resolves ())
         (run (test_breaker InMemoryStateStore) [Call, Call :: unit step]
            (test_world InMemoryStateStore (test_stats CLOSED 0 None))))
       = Threw (Error ''Maximum concurrent requests exceeded'')
   \<and> invoked (snd (execute (test_breaker InMemoryStateStore) (Resolves ())
         (run (test_breaker InMemoryStateStore) [Call, Call :: unit step]
            (test_world InMemoryStateStore (test_stats CLOSED 0 None))))) = 2"
proof -
  let ?b = "test_breaker InMemoryStateStore"
  let ?w = "test_world InMemoryStateStore (test_stats CLOSED 0 None)"
  let ?w2 = "run ?b [Call, Call :: unit step] ?w"
  have h1: "maxConcurrent (options ?b) = Some 2"
    by (simp add: test_defs)
  have h2: "(0::int) \<le> 2" by simp
  have h3: "activeRequests ?w = {||}"
    by (simp add: test_defs)
  have w2: "?w2 = ?w\<lparr> symbols := 2, activeRequests := {|1, 0|}, reads := 2,
                       requestTimes := [5000, 5010], invoked := 2 \<rparr>"
    by (simp add: run_def execute_admission_def gate_def admit_def invoke_def getState_def
          Date_now_def Let_def test_defs fcard_fempty fcard_finsert_if)
  have a: "activeRequests ?w2 = {|1, 0|}" "invoked ?w2 = 2"
    by (simp_all add: w2)
  have h4: "2 \<le> int (fcard (activeRequests ?w2))"
    by (simp add: a fcard_finsert_if fcard_fempty)
  have h5: "\<not> open_and_cooling ?b ?w2"
    unfolding w2 by (simp add: open_and_cooling_def getState_def test_defs)
  note main = activeRequests_never_exceed_maxConcurrent [OF h1 h2]
  have inv: "int (fcard (activeRequests (run ?b [Call, Call, Call :: unit step] ?w))) \<le> 2"
    using main [THEN conjunct1, rule_format, OF h3] .
  have over: "fst (execute ?b (Resolves ()) ?w2) = Threw (Error ''Maximum concurrent requests exceeded'')
      \<and> invoked (snd (execute ?b (Resolves ()) ?w2)) = invoked ?w2"
    using main [THEN conjunct2, THEN conjunct2, THEN conjunct1, rule_format, of ?w2 "Resolves ()"]
      h4 h5 by blast
  show ?thesis
    using h1 h2 h3 inv a h5 over by simp
qed

subsection \<open>The concurrency cap under overlapping operations\<close>

text \<open>
  The cap also holds with every \<^verbatim>\<open>await\<close> in place: whatever operations of the
  breaker overlap, and in whatever order their turns are taken, \<^verbatim>\<open>activeRequests\<close>
  stays within \<^verbatim>\<open>maxConcurrent\<close> after every turn.
\<close>

lemma keeps_bind:
  "keeps P p \<Longrightarrow> (\<And>a. keeps P (f a)) \<Longrightarrow> keeps P (bind_prog p f)"
  by (induction p) auto

lemma keeps_await_call:
  "keeps P p \<Longrightarrow> (\<And>a. keeps P (f a)) \<Longrightarrow> keeps P (await_call p f)"
  by (simp add: await_call_def keeps_bind)

lemma keeps_Now:
  "(\<And>t. keeps (under_cap m) (k t)) \<Longrightarrow> keeps (under_cap m) (Now k)"
  by (simp add: Now_def Date_now_def under_cap_def)

lemma keeps_Emit:
  "keeps (under_cap m) p \<Longrightarrow> keeps (under_cap m) (Emit e p)"
  by (simp add: Emit_def emit_def under_cap_def)

lemma keeps_Fields:
  "(\<And>w. keeps P (k w)) \<Longrightarrow> keeps P (Fields k)"
  by (simp add: Fields_def)

lemma under_cap_setState: "under_cap m w \<Longrightarrow> under_cap m (setState st key v w)"
  using untouched_active [OF untouched_setState [OF untouched_refl], of st key v w]
  by (simp add: under_cap_def)

lemma keeps_Put:
  "keeps (under_cap m) p \<Longrightarrow> keeps (under_cap m) (Put st key v p)"
  by (simp add: under_cap_setState)

lemmas keeps_intros =
  keeps_bind keeps_await_call keeps_Now keeps_Emit keeps_Fields keeps_Put

lemma keeps_updateStats: "keeps (under_cap m) (updateStats_prog b stats updates)"
  unfolding updateStats_prog_def by (intro keeps_intros) simp

lemma keeps_incrementFailureCount: "keeps (under_cap m) (incrementFailureCount_prog st key)"
  by (cases st) (auto simp add: Let_def intro!: keeps_Now keeps_Put split: option.splits)

lemma keeps_initializeState: "keeps (under_cap m) (initializeState_prog b)"
  unfolding initializeState_prog_def
  by (auto intro!: keeps_Now keeps_Put split: option.splits)

lemma keeps_transitionToHalfOpen: "keeps (under_cap m) (transitionToHalfOpen_prog b)"
  unfolding transitionToHalfOpen_prog_def
  by (auto intro!: keeps_await_call keeps_updateStats keeps_Emit split: option.splits)

lemma keeps_transitionToOpen: "keeps (under_cap m) (transitionToOpen_prog b err)"
  unfolding transitionToOpen_prog_def
  by (auto intro!: keeps_await_call keeps_updateStats keeps_Emit keeps_Now
        split: option.splits sum.splits)

lemma keeps_transitionToClosed: "keeps (under_cap m) (transitionToClosed_prog b)"
  unfolding transitionToClosed_prog_def
  by (auto intro!: keeps_await_call keeps_updateStats keeps_Emit keeps_Now
        split: option.splits)

lemma keeps_recordSuccess: "keeps (under_cap m) (recordSuccess_prog b)"
  unfolding recordSuccess_prog_def
  by (auto intro!: keeps_updateStats keeps_Now keeps_Fields split: option.splits)

lemma keeps_recordFailure: "keeps (under_cap m) (recordFailure_prog b err)"
  unfolding recordFailure_prog_def
  by (auto intro!: keeps_await_call keeps_updateStats keeps_Emit keeps_Now keeps_Fields
        keeps_incrementFailureCount keeps_transitionToOpen
        split: option.splits sum.splits)

lemma keeps_performHealthCheck: "keeps (under_cap m) (performHealthCheck_prog b)"
  unfolding performHealthCheck_prog_def Let_def
  by (auto intro!: keeps_await_call keeps_Emit keeps_Now keeps_Fields keeps_Put
        keeps_transitionToHalfOpen split: option.splits)

lemma under_cap_cleanup_request: "under_cap m w \<Longrightarrow> under_cap m (cleanup_request rid w)"
proof -
  have "fcard (activeRequests w |-| {|rid|}) \<le> fcard (activeRequests w)"
    by (rule fcard_fminus1_le)
  then show "under_cap m w \<Longrightarrow> under_cap m (cleanup_request rid w)"
    by (simp add: under_cap_def cleanup_request_def Let_def emit_def)
qed

lemma under_cap_recordResponseTime:
  "under_cap m w \<Longrightarrow> under_cap m (recordResponseTime t w)"
  by (simp add: under_cap_def recordResponseTime_def)

lemma keeps_settle: "keeps (under_cap m) (settle_prog b adm serviceCall)"
  unfolding settle_prog_def
  by (auto intro!: keeps_await_call keeps_bind keeps_Now
        keeps_recordSuccess keeps_recordFailure keeps_transitionToClosed
        simp add: under_cap_cleanup_request under_cap_recordResponseTime
        split: settles.splits)

lemma keeps_admit:
  assumes "maxConcurrent (options b) = Some m"
  shows "keeps (under_cap m) (admit_prog b serviceCall stats)"
  unfolding admit_prog_def
  using admit_bound [OF assms]
  by (auto intro!: keeps_settle simp add: under_cap_def invoke_def split: sum.splits)

lemma keeps_reload:
  "(\<And>stats. keeps P (continue stats)) \<Longrightarrow> keeps P (reload_prog b continue)"
  unfolding reload_prog_def by (auto split: option.splits)

lemma keeps_gate:
  assumes "maxConcurrent (options b) = Some m"
  shows "keeps (under_cap m) (gate_prog b serviceCall stats)"
  unfolding gate_prog_def Let_def
  by (auto intro!: keeps_await_call keeps_Now keeps_reload keeps_admit [OF assms]
        keeps_transitionToHalfOpen)

lemma keeps_execute:
  assumes "maxConcurrent (options b) = Some m"
  shows "keeps (under_cap m) (execute_prog b serviceCall)"
  unfolding execute_prog_def
  by (auto intro!: keeps_await_call keeps_reload keeps_gate [OF assms] keeps_initializeState
        split: option.splits)

lemma keeps_discard: "keeps P p \<Longrightarrow> keeps P (discard p)"
  unfolding discard_def by (rule keeps_bind) simp_all

lemma keeps_program:
  assumes "maxConcurrent (options b) = Some m"
  shows "keeps (under_cap m) (program b op)"
  by (cases op)
     (simp_all add: keeps_discard keeps_execute [OF assms] keeps_performHealthCheck
        keeps_recordSuccess keeps_recordFailure keeps_transitionToHalfOpen
        keeps_transitionToOpen keeps_transitionToClosed keeps_initializeState)

lemma resume_keeps:
  "keeps P p \<Longrightarrow> P w \<Longrightarrow> P (snd (resume p w)) \<and> keeps P (fst (resume p w))"
  by (induction p arbitrary: w) simp_all

lemma turns_keep:
  assumes "\<forall>p\<in>set ts. keeps P p" "P w"
  shows "list_all P (turns schedule (ts, w))"
  using assms
proof (induction schedule arbitrary: ts w)
  case Nil
  show ?case by simp
next
  case (Cons i schedule)
  show ?case
  proof (cases "i < length ts")
    case False
    then have t: "turn i (ts, w) = (ts, w)" by (simp add: turn_def)
    show ?thesis using Cons.IH [OF Cons.prems] Cons.prems(2) by (simp add: t)
  next
    case True
    let ?p = "ts ! i"
    have k: "keeps P ?p" using Cons.prems(1) True by simp
    note r = resume_keeps [OF k Cons.prems(2)]
    have t: "turn i (ts, w) = (ts[i := fst (resume ?p w)], snd (resume ?p w))"
      using True by (simp add: turn_def)
    have "\<forall>p\<in>set (ts[i := fst (resume ?p w)]). keeps P p"
    proof
      fix p assume "p \<in> set (ts[i := fst (resume ?p w)])"
      then have "p \<in> insert (fst (resume ?p w)) (set ts)"
        using set_update_subset_insert [of ts i "fst (resume ?p w)"] by (rule_tac subsetD)
      then show "keeps P p" using r Cons.prems(1) by auto
    qed
    from Cons.IH [OF this conjunct1 [OF r]] show ?thesis using r by (simp add: t)
  qed
qed

lemma overlapping_operations_within_maxConcurrent:
  assumes "maxConcurrent (options b) = Some m" "int (fcard (activeRequests w)) \<le> m"
  shows "list_all (\<lambda>w'. int (fcard (activeRequests w')) \<le> m)
           (turns schedule (map (program b) ops, w))"
proof -
  have "\<forall>p\<in>set (map (program b) ops). keeps (under_cap m) p"
    using keeps_program [OF assms(1)] by auto
  moreover have "under_cap m w" using assms(2) by (simp add: under_cap_def)
  ultimately have "list_all (under_cap m) (turns schedule (map (program b) ops, w))"
    by (rule turns_keep)
  then show ?thesis by (simp add: under_cap_def [abs_def])
qed

subsection \<open>The programs run one at a time\<close>

text \<open>
  Run to its end with no other task in between, each program does what the method does
  in the sequential reading above.
\<close>

lemma exec_bind_prog:
  "exec (bind_prog p f) w = exec (f (fst (exec p w))) (snd (exec p w))"
  by (induction p arbitrary: w) simp_all

lemma exec_await_call:
  "exec (await_call p f) w = exec (f (fst (exec p w))) (snd (exec p w))"
  by (simp add: await_call_def exec_bind_prog)

lemma exec_Now: "exec (Now k) w = exec (k (fst (Date_now w))) (snd (Date_now w))"
  by (simp add: Now_def)

lemma exec_Emit: "exec (Emit e p) w = exec p (emit e w)"
  by (simp add: Emit_def)

lemma exec_Fields: "exec (Fields k) w = exec (k w) w"
  by (simp add: Fields_def)

lemmas exec_simps = exec_bind_prog exec_await_call exec_Now exec_Emit exec_Fields

lemma exec_incrementFailureCount:
  "exec (incrementFailureCount_prog st key) w = incrementFailureCount st key w"
  by (cases st)
     (simp_all add: incrementFailureCount.simps exec_simps Let_def case_prod_beta
        split: option.splits)

lemma exec_initializeState:
  "exec (initializeState_prog b) w = ((), initializeState b w)"
  by (simp add: initializeState_prog_def initializeState_def exec_simps Let_def case_prod_beta
        split: option.splits)

lemma exec_updateStats:
  "exec (updateStats_prog b stats updates) w = ((), updateStats b stats updates w)"
  by (simp add: updateStats_prog_def updateStats_def exec_simps Let_def case_prod_beta)

lemma exec_transitionToHalfOpen:
  "exec (transitionToHalfOpen_prog b) w = ((), transitionToHalfOpen b w)"
  by (simp add: transitionToHalfOpen_prog_def transitionToHalfOpen_def exec_simps
        exec_updateStats Let_def split: option.splits)

lemma exec_transitionToOpen:
  "exec (transitionToOpen_prog b err) w = transitionToOpen b err w"
  by (simp add: transitionToOpen_prog_def transitionToOpen_def exec_simps
        exec_updateStats Let_def case_prod_beta split: option.splits sum.splits)

lemma exec_transitionToClosed:
  "exec (transitionToClosed_prog b) w = ((), transitionToClosed b w)"
  by (simp add: transitionToClosed_prog_def transitionToClosed_def exec_simps
        exec_updateStats Let_def case_prod_beta split: option.splits)

lemma exec_recordSuccess:
  "exec (recordSuccess_prog b) w = ((), recordSuccess b w)"
  by (simp add: recordSuccess_prog_def recordSuccess_def exec_simps
        exec_updateStats Let_def case_prod_beta split: option.splits)

lemma exec_recordFailure:
  "exec (recordFailure_prog b err) w = recordFailure b err w"
  by (simp add: recordFailure_prog_def recordFailure_def exec_simps exec_incrementFailureCount
        exec_transitionToOpen
        exec_updateStats Let_def case_prod_beta split: option.splits sum.splits)

lemma exec_performHealthCheck:
  "exec (performHealthCheck_prog b) w = ((), performHealthCheck b w)"
  by (simp add: performHealthCheck_prog_def performHealthCheck_def exec_simps
        exec_transitionToHalfOpen getState_def Date_now_def
        Let_def case_prod_beta split: option.splits)

lemma exec_settle:
  "exec (settle_prog b adm serviceCall) w = settle_request b adm serviceCall w"
  by (simp add: settle_prog_def settle_request_def exec_simps exec_recordSuccess
        exec_recordFailure exec_transitionToClosed
        Let_def case_prod_beta split: settles.splits)

lemma exec_admit:
  "exec (admit_prog b serviceCall stats) w =
     (case admit b stats w of
        (Inl e, w1) \<Rightarrow> (Threw e, w1)
      | (Inr adm, w1) \<Rightarrow> execute_request b adm serviceCall w1)"
  by (simp add: admit_prog_def exec_settle execute_request_def case_prod_beta split: sum.splits)

lemma exec_reload:
  assumes "\<And>stats w. exec (continue stats) w =
             (case continue' stats w of
                (Inl e, w1) \<Rightarrow> (Threw e, w1)
              | (Inr adm, w1) \<Rightarrow> execute_request b adm serviceCall w1)"
  shows "exec (reload_prog b continue) w =
     (case reload b w continue' of
        (Inl e, w1) \<Rightarrow> (Threw e, w1)
      | (Inr adm, w1) \<Rightarrow> execute_request b adm serviceCall w1)"
  by (simp add: reload_prog_def reload_def assms split: option.splits)

lemma exec_gate:
  "exec (gate_prog b serviceCall stats) w =
     (case gate b stats w of
        (Inl e, w1) \<Rightarrow> (Threw e, w1)
      | (Inr adm, w1) \<Rightarrow> execute_request b adm serviceCall w1)"
  by (simp add: gate_prog_def gate_def exec_simps exec_transitionToHalfOpen
        exec_reload [where continue' = "admit b", OF exec_admit] exec_admit
        Let_def case_prod_beta split: sum.splits)

lemma exec_execute:
  "exec (execute_prog b serviceCall) w = execute b serviceCall w"
  by (simp add: execute_prog_def execute_def execute_admission_def exec_simps
        exec_initializeState
        exec_reload [where continue' = "gate b", OF exec_gate] exec_gate
        case_prod_beta split: option.splits sum.splits)

text \<open>
  A task that is alone in the pool reaches, after finitely many turns, the result and
  the world of the sequential reading, and stays there.
\<close>

lemma turn_Return: "turn 0 ([Return a], w) = ([Return a], w)"
  by (simp add: turn_def)

lemma turn_Sync: "turn 0 ([Sync e k], w) = turn 0 ([k w], e w)"
  by (simp add: turn_def)

lemma turn_Get: "turn 0 ([Get st key k], w) = ([k (getState st key w)], w)"
  by (simp add: turn_def)

lemma turn_Put: "turn 0 ([Put st key v p], w) = ([p], setState st key v w)"
  by (simp add: turn_def)

lemma turn_Yield: "turn 0 ([Yield p], w) = ([p], w)"
  by (simp add: turn_def)

lemma funpow_Suc_turn:
  "(turn 0 ^^ Suc m) pool = (turn 0 ^^ m) (turn 0 pool)"
  by (simp add: funpow_swap1)

lemma alone_is_sequential:
  "\<exists>n. \<forall>m\<ge>n. (turn 0 ^^ m) ([p], w) = ([Return (fst (exec p w))], snd (exec p w))"
proof (induction p arbitrary: w)
  case (Return a)
  have "(turn 0 ^^ m) ([Return a], w) = ([Return a], w)" for m
    by (induction m) (simp_all add: turn_Return)
  then show ?case by simp
next
  case (Sync e k)
  from Sync.IH [OF rangeI, of w "e w"] obtain n
    where n: "\<forall>m\<ge>n. (turn 0 ^^ m) ([k w], e w)
                = ([Return (fst (exec (k w) (e w)))], snd (exec (k w) (e w)))" ..
  have "(turn 0 ^^ m) ([Sync e k], w)
          = ([Return (fst (exec (Sync e k) w))], snd (exec (Sync e k) w))"
    if le: "Suc n \<le> m" for m
  proof -
    obtain m' where m': "m = Suc m'" using le by (cases m) simp_all
    have "(turn 0 ^^ m) ([Sync e k], w) = (turn 0 ^^ m) ([k w], e w)"
      unfolding m' funpow_Suc_turn turn_Sync ..
    moreover have "(turn 0 ^^ m) ([k w], e w)
                     = ([Return (fst (exec (k w) (e w)))], snd (exec (k w) (e w)))"
      using n le by simp
    ultimately show ?thesis by simp
  qed
  then show ?case by blast
next
  case (Get st key k)
  from Get.IH [OF rangeI, of "getState st key w" w] obtain n
    where n: "\<forall>m\<ge>n. (turn 0 ^^ m) ([k (getState st key w)], w)
                = ([Return (fst (exec (k (getState st key w)) w))],
                   snd (exec (k (getState st key w)) w))" ..
  have "(turn 0 ^^ m) ([Get st key k], w)
          = ([Return (fst (exec (Get st key k) w))], snd (exec (Get st key k) w))"
    if le: "Suc n \<le> m" for m
  proof -
    obtain m' where m': "m = Suc m'" using le by (cases m) simp_all
    have "(turn 0 ^^ m) ([Get st key k], w) = (turn 0 ^^ m') ([k (getState st key w)], w)"
      unfolding m' funpow_Suc_turn turn_Get ..
    then show ?thesis using n le m' by simp
  qed
  then show ?case by blast
next
  case (Put st key v p)
  from Put.IH [of "setState st key v w"] obtain n
    where n: "\<forall>m\<ge>n. (turn 0 ^^ m) ([p], setState st key v w)
                = ([Return (fst (exec p (setState st key v w)))],
                   snd (exec p (setState st key v w)))" ..
  have "(turn 0 ^^ m) ([Put st key v p], w)
          = ([Return (fst (exec (Put st key v p) w))], snd (exec (Put st key v p) w))"
    if le: "Suc n \<le> m" for m
  proof -
    obtain m' where m': "m = Suc m'" using le by (cases m) simp_all
    have "(turn 0 ^^ m) ([Put st key v p], w) = (turn 0 ^^ m') ([p], setState st key v w)"
      unfolding m' funpow_Suc_turn turn_Put ..
    then show ?thesis using n le m' by simp
  qed
  then show ?case by blast
next
  case (Yield p)
  from Yield.IH [of w] obtain n
    where n: "\<forall>m\<ge>n. (turn 0 ^^ m) ([p], w)
                = ([Return (fst (exec p w))], snd (exec p w))" ..
  have "(turn 0 ^^ m) ([Yield p], w)
          = ([Return (fst (exec (Yield p) w))], snd (exec (Yield p) w))"
    if le: "Suc n \<le> m" for m
  proof -
    obtain m' where m': "m = Suc m'" using le by (cases m) simp_all
    have "(turn 0 ^^ m) ([Yield p], w) = (turn 0 ^^ m') ([p], w)"
      unfolding m' funpow_Suc_turn turn_Yield ..
    then show ?thesis using n le m' by simp
  qed
  then show ?case by blast
qed

subsection \<open>The lifetime counters\<close>

lemma getState_performHealthCheck:
  assumes "getState (stateStore b) (serviceKey b) w = Some s"
  shows "\<exists>r. getState (stateStore b) (serviceKey b) (performHealthCheck b w) = Some r
             \<and> totalRequests r = totalRequests s
             \<and> successfulRequests r = successfulRequests s
             \<and> failedRequests r = failedRequests s"
proof -
  let ?w1 = "w\<lparr>reads := Suc (reads w)\<rparr>"
  have g1: "getState (stateStore b) (serviceKey b) ?w1 = Some s"
    using assms by (simp add: getState_reads)
  show ?thesis
  proof (cases "state s = OPEN
                \<and> resetTimeout (options b) \<le> clock w (reads w) - nullish (lastFailureTime s) 0")
    case True
    then have "performHealthCheck b w = transitionToHalfOpen b ?w1"
      using assms g1 by (simp add: performHealthCheck_def Date_now_def Let_def)
    then show ?thesis
      using getState_transitionToHalfOpen [OF g1] True by simp
  next
    case False
    then show ?thesis
      using assms g1
      by (auto simp add: performHealthCheck_def Date_now_def Let_def getState_emit
            getState_setState)
  qed
qed

text \<open>
  What admission leaves in the store when the record is present and the open-circuit
  gate lets the call through: the loaded stats, not OPEN, with the counters of before.
\<close>

lemma execute_admission_present:
  assumes "getState (stateStore b) (serviceKey b) w = Some s" "\<not> open_and_cooling b w"
  shows "\<exists>s1 w1. execute_admission b w = admit b s1 w1
            \<and> getState (stateStore b) (serviceKey b) w1 = Some s1
            \<and> state s1 = (if state s = OPEN then HALF_OPEN else state s)
            \<and> totalRequests s1 = totalRequests s
            \<and> successfulRequests s1 = successfulRequests s
            \<and> failedRequests s1 = failedRequests s"
proof (cases "state s = OPEN")
  case False
  then show ?thesis
    using execute_admission_not_open [OF assms(1) False] assms(1) by auto
next
  case True
  have el: "resetTimeout (options b) \<le> clock w (reads w) - nullish (lastFailureTime s) 0"
    using assms True by (simp add: open_and_cooling_def)
  let ?w1 = "w\<lparr>reads := Suc (reads w)\<rparr>"
  have g1: "getState (stateStore b) (serviceKey b) ?w1 = Some s"
    using assms(1) by (simp add: getState_reads)
  let ?s1 = "s\<lparr> state := HALF_OPEN, failureCount := 0,
                   lastUpdateTime := Some (clock w (Suc (reads w))) \<rparr>"
  have e: "execute_admission b w = admit b ?s1 (transitionToHalfOpen b ?w1)"
    by (rule execute_admission_elapsed [OF assms(1) True el])
  have g: "getState (stateStore b) (serviceKey b) (transitionToHalfOpen b ?w1) = Some ?s1"
    using getState_transitionToHalfOpen [OF g1 True] by simp
  show ?thesis
    by (rule exI [of _ ?s1], rule exI [of _ "transitionToHalfOpen b ?w1"])
       (simp add: e g True)
qed

lemma getState_execute_request:
  assumes "getState (stateStore b) (serviceKey b) w = Some s1" "loadedStats adm = s1"
  shows "\<exists>r. getState (stateStore b) (serviceKey b) (snd (execute_request b adm serviceCall w)) = Some r
             \<and> totals_le s1 r
             \<and> (case race (options b) serviceCall of
                   Resolves v \<Rightarrow>
                     fst (execute_request b adm serviceCall w) = Returned v
                     \<and> totalRequests r = totalRequests s1 + 1
                     \<and> successfulRequests r = successfulRequests s1 + 1
                     \<and> (if state s1 = HALF_OPEN
                         then state r = CLOSED \<and> failedRequests r = 0 \<and> failureCount r = 0
                         else state r = state s1 \<and> failedRequests r = failedRequests s1)
                 | Rejects e \<Rightarrow> failedRequests r = failedRequests s1 + 1
                 | Pending \<Rightarrow> r = s1)"
proof (cases "race (options b) serviceCall")
  case Pending
  then show ?thesis
    using assms
    by (simp add: execute_request_def settle_request_def invoke_def Let_def getState_invoked
          totals_le_def)
next
  case (Rejects e)
  let ?w1 = "w\<lparr>invoked := Suc (invoked w)\<rparr>"
  have g1: "getState (stateStore b) (serviceKey b) ?w1 = Some s1"
    using assms(1) by (simp add: getState_invoked)
  have after: "\<exists>r. getState (stateStore b) (serviceKey b) (snd (recordFailure b e ?w1)) = Some r
                 \<and> totals_le s1 r \<and> failedRequests r = failedRequests s1 + 1"
  proof (cases "message e")
    case (Inl t)
    show ?thesis
      by (simp add: getState_recordFailure_TypeError [OF g1 Inl] incremented_fields
            totals_le_def)
  next
    case (Inr m)
    show ?thesis
      by (simp add: getState_recordFailure(1) [OF g1 Inr] failure_written_def totals_le_def)
  qed
  show ?thesis
    using after Rejects
    by (simp add: execute_rejects [OF Rejects] getState_cleanup_request)
next
  case (Resolves v)
  define w3 where "w3 = recordResponseTime (clock w (reads w) - startTime adm)
                          (w\<lparr>invoked := Suc (invoked w), reads := Suc (reads w)\<rparr>)"
  have g3: "getState (stateStore b) (serviceKey b) w3 = Some s1"
    using assms(1) by (simp add: w3_def recordResponseTime_def getState_def)
  note g4 = getState_recordSuccess [OF g3]
  have ex: "execute_request b adm serviceCall w
              = (Returned v, cleanup_request (requestId adm)
                   (if state s1 = HALF_OPEN then transitionToClosed b (recordSuccess b w3)
                    else recordSuccess b w3))"
    using Resolves assms(2)
    by (simp add: execute_request_def settle_request_def invoke_def Let_def Date_now_def w3_def)
  show ?thesis
  proof (cases "state s1 = HALF_OPEN")
    case False
    then show ?thesis
      using g4 Resolves by (simp add: ex getState_cleanup_request totals_le_def)
  next
    case True
    have "state (s1\<lparr> successfulRequests := successfulRequests s1 + 1,
                      totalRequests := totalRequests s1 + 1,
                      lastSuccessTime := Some (clock w3 (reads w3)),
                      averageResponseTime := Some (calculateAverageResponseTime w3),
                      currentLoad := Some (int (fcard (activeRequests w3))),
                      lastUpdateTime := Some (clock w3 (Suc (reads w3))) \<rparr>) \<noteq> CLOSED"
      using True by simp
    from getState_transitionToClosed [OF g4 this]
    show ?thesis
      using True Resolves by (simp add: ex getState_cleanup_request totals_le_def)
  qed
qed

lemma admit_rejected_world:
  assumes "fst (admit b stats w) = Inl e"
  shows "snd (admit b stats w) = w"
  using assms by (simp add: admit_def Date_now_def Let_def split: if_splits)

lemma getState_execute:
  assumes "getState (stateStore b) (serviceKey b) w = Some s"
  shows "\<exists>r. getState (stateStore b) (serviceKey b) (snd (execute b serviceCall w)) = Some r
             \<and> totals_le s r
             \<and> (if closes_circuit b serviceCall w
                 then state r = CLOSED \<and> failedRequests r = 0
                 else failedRequests s \<le> failedRequests r)"
proof (cases "open_and_cooling b w")
  case True
  then have "execute_admission b w
               = (Inl (Error ''Circuit breaker is OPEN''), w\<lparr>reads := Suc (reads w)\<rparr>)"
    using execute_admission_cases [of b w] by auto
  then show ?thesis
    using assms
    by (simp add: execute_def closes_circuit_def getState_reads totals_le_def)
next
  case False
  from execute_admission_present [OF assms False]
  obtain s1 w1 where e: "execute_admission b w = admit b s1 w1"
    and g1: "getState (stateStore b) (serviceKey b) w1 = Some s1"
    and c: "totalRequests s1 = totalRequests s" "successfulRequests s1 = successfulRequests s"
      "failedRequests s1 = failedRequests s"
    by blast
  show ?thesis
  proof (cases "fst (admit b s1 w1)")
    case (Inl err)
    have "execute b serviceCall w = (Threw err, w1)"
      using execute_rejected [of b w err serviceCall] Inl admit_rejected_world [OF Inl]
      by (simp add: e)
    then show ?thesis
      using g1 c Inl by (simp add: closes_circuit_def e totals_le_def)
  next
    case (Inr adm)
    define wa where "wa = snd (admit b s1 w1)"
    have ad: "admit b s1 w1 = (Inr adm, wa)"
      using Inr by (simp add: wa_def prod_eq_iff)
    have ls: "loadedStats adm = s1"
      using admit_admitted(1) [OF Inr] ad by auto
    have ga: "getState (stateStore b) (serviceKey b) wa = Some s1"
      using g1 by (simp add: wa_def getState_admit)
    have ex: "execute b serviceCall w = execute_request b adm serviceCall wa"
      by (simp add: execute_def e ad)
    have cl: "closes_circuit b serviceCall w
                = (state s1 = HALF_OPEN
                   \<and> (case race (options b) serviceCall of
                          Resolves v \<Rightarrow> True | Rejects e \<Rightarrow> False | Pending \<Rightarrow> False))"
      by (simp add: closes_circuit_def e ad ls)
    from getState_execute_request [OF ga ls, of serviceCall]
    obtain r where r: "getState (stateStore b) (serviceKey b) (snd (execute b serviceCall w)) = Some r"
      and t: "totals_le s1 r"
      and k: "case race (options b) serviceCall of
                Resolves v \<Rightarrow>
                  fst (execute_request b adm serviceCall wa) = Returned v
                  \<and> totalRequests r = totalRequests s1 + 1
                  \<and> successfulRequests r = successfulRequests s1 + 1
                  \<and> (if state s1 = HALF_OPEN
                      then state r = CLOSED \<and> failedRequests r = 0 \<and> failureCount r = 0
                      else state r = state s1 \<and> failedRequests r = failedRequests s1)
              | Rejects e \<Rightarrow> failedRequests r = failedRequests s1 + 1
              | Pending \<Rightarrow> r = s1"
      unfolding ex by blast
    have "totals_le s r"
      using t c by (simp add: totals_le_def)
    moreover have "if closes_circuit b serviceCall w
                   then state r = CLOSED \<and> failedRequests r = 0
                   else failedRequests s \<le> failedRequests r"
      using k c unfolding cl by (cases "race (options b) serviceCall") (auto split: if_splits)
    ultimately show ?thesis using r by blast
  qed
qed

lemma getState_resetStats:
  assumes "getState st k w = Some s"
  shows "\<exists>r. getState st k (resetStats st k w) = Some r
             \<and> totalRequests r = totalRequests s
             \<and> successfulRequests r = successfulRequests s
             \<and> failedRequests r = (case st of EtcdStateStore \<Rightarrow> failedRequests s
                                   | InMemoryStateStore \<Rightarrow> 0)"
  using assms by (cases st) (simp_all add: resetStats.simps getState_setState)

text \<open>
  Overlapping operations. Every program of the breaker is \<open>derived\<close>: what it writes
  comes from a record it has read.
\<close>

lemma advanced_refl: "advanced s s"
  by (simp add: advanced_def totals_le_def)

lemma derived_mono:
  "derived p st key H \<Longrightarrow> H \<subseteq> H' \<Longrightarrow> derived p st key H'"
proof (induction p arbitrary: H H')
  case (Get st' key' k)
  show ?case
  proof (simp, intro conjI allI)
    show "st' = st" "key' = key" using Get.prems by simp_all
    fix s
    have "derived (k s) st key (insert s H)" using Get.prems by simp
    moreover have "insert s H \<subseteq> insert s H'" using Get.prems by auto
    ultimately show "derived (k s) st key (insert s H')"
      by (rule Get.IH [OF rangeI])
  qed
next
  case (Sync e k)
  show ?case
  proof (simp, intro allI conjI)
    fix w
    show "getState st key (e w) = getState st key w" using Sync.prems by simp
    have "derived (k w) st key H" using Sync.prems by simp
    then show "derived (k w) st key H'" by (rule Sync.IH [OF rangeI]) (rule Sync.prems(2))
  qed
next
  case (Put st' key' v p)
  then show ?case by auto
qed auto

lemma derived_bind:
  assumes "derived p st key H"
    and "\<And>a H'. H \<subseteq> H' \<Longrightarrow> derived (f a) st key H'"
  shows "derived (bind_prog p f) st key H"
  using assms
proof (induction p arbitrary: H)
  case (Get st' key' k)
  show ?case
  proof (simp, intro conjI allI)
    show "st' = st" "key' = key" using Get.prems by simp_all
    fix s
    have d: "derived (k s) st key (insert s H)" using Get.prems by simp
    show "derived (bind_prog (k s) f) st key (insert s H)"
      by (rule Get.IH [OF rangeI d]) (rule Get.prems(2), auto)
  qed
qed auto

lemma derived_await_call:
  assumes "derived p st key H"
    and "\<And>a H'. H \<subseteq> H' \<Longrightarrow> derived (f a) st key H'"
  shows "derived (await_call p f) st key H"
  unfolding await_call_def by (rule derived_bind [OF assms(1)]) (simp add: assms(2))

lemma derived_Now:
  "(\<And>t. derived (k t) st key H) \<Longrightarrow> derived (Now k) st key H"
  by (simp add: Now_def Date_now_def getState_def)

lemma derived_Emit:
  "derived p st key H \<Longrightarrow> derived (Emit e p) st key H"
  by (simp add: Emit_def getState_emit)

lemma derived_Fields:
  "(\<And>w. derived (k w) st key H) \<Longrightarrow> derived (Fields k) st key H"
  by (simp add: Fields_def)

lemma derived_updateStats:
  assumes "Some stats \<in> H"
    and "\<And>t. advanced stats ((updates stats)\<lparr>lastUpdateTime := t\<rparr>)"
  shows "derived (updateStats_prog b stats updates) (stateStore b) (serviceKey b) H"
  unfolding updateStats_prog_def
  by (rule derived_Now) (use assms in \<open>auto intro!: bexI [of _ "Some stats"]\<close>)

lemma derived_incrementFailureCount:
  "derived (incrementFailureCount_prog st key) st key H"
  by (cases st)
     (auto simp add: Let_def advanced_def totals_le_def
        intro!: derived_Now split: option.splits)

lemma derived_initializeState:
  "derived (initializeState_prog b) (stateStore b) (serviceKey b) H"
  unfolding initializeState_prog_def
  by (auto intro!: derived_Now split: option.splits)

lemma derived_transitionToHalfOpen:
  "derived (transitionToHalfOpen_prog b) (stateStore b) (serviceKey b) H"
  unfolding transitionToHalfOpen_prog_def
  by (auto intro!: derived_await_call derived_updateStats derived_Emit
        simp add: advanced_def totals_le_def split: option.splits)

lemma derived_transitionToOpen:
  "derived (transitionToOpen_prog b err) (stateStore b) (serviceKey b) H"
  unfolding transitionToOpen_prog_def
  by (auto intro!: derived_await_call derived_updateStats derived_Emit derived_Now
        simp add: advanced_def totals_le_def split: option.splits sum.splits)

lemma derived_transitionToClosed:
  "derived (transitionToClosed_prog b) (stateStore b) (serviceKey b) H"
  unfolding transitionToClosed_prog_def
  by (auto intro!: derived_await_call derived_updateStats derived_Emit derived_Now
        simp add: advanced_def totals_le_def split: option.splits)

lemma derived_recordSuccess:
  "derived (recordSuccess_prog b) (stateStore b) (serviceKey b) H"
  unfolding recordSuccess_prog_def
  by (auto intro!: derived_updateStats derived_Now derived_Fields
        simp add: advanced_def totals_le_def split: option.splits)

lemma derived_recordFailure:
  "derived (recordFailure_prog b err) (stateStore b) (serviceKey b) H"
  unfolding recordFailure_prog_def
  by (auto intro!: derived_await_call derived_updateStats derived_Emit derived_Now
        derived_Fields derived_incrementFailureCount derived_transitionToOpen
        simp add: advanced_def totals_le_def split: option.splits sum.splits)

lemma derived_performHealthCheck:
  "derived (performHealthCheck_prog b) (stateStore b) (serviceKey b) H"
  unfolding performHealthCheck_prog_def Let_def
  by (auto intro!: derived_await_call derived_Emit derived_Now
        derived_Fields derived_transitionToHalfOpen bexI [of _ "Some _"]
        simp add: advanced_def totals_le_def split: option.splits)

lemma getState_recordResponseTime:
  "getState st k (recordResponseTime t w) = getState st k w"
  by (simp add: recordResponseTime_def getState_def)

lemma derived_settle:
  "derived (settle_prog b adm serviceCall) (stateStore b) (serviceKey b) H"
  unfolding settle_prog_def
  by (auto intro!: derived_await_call derived_bind derived_Now
        derived_recordSuccess derived_recordFailure derived_transitionToClosed
        simp add: getState_cleanup_request getState_recordResponseTime
        split: settles.splits)

lemma derived_admit:
  "derived (admit_prog b serviceCall stats) (stateStore b) (serviceKey b) H"
  unfolding admit_prog_def
  by (auto intro!: derived_settle simp add: getState_admit invoke_def getState_invoked
        split: sum.splits)

lemma derived_reload:
  "(\<And>stats H'. derived (continue stats) (stateStore b) (serviceKey b) H')
   \<Longrightarrow> derived (reload_prog b continue) (stateStore b) (serviceKey b) H"
  unfolding reload_prog_def by (auto split: option.splits)

lemma derived_gate:
  "derived (gate_prog b serviceCall stats) (stateStore b) (serviceKey b) H"
  unfolding gate_prog_def Let_def
  by (auto intro!: derived_await_call derived_Now derived_reload derived_admit
        derived_transitionToHalfOpen)

lemma derived_execute:
  "derived (execute_prog b serviceCall) (stateStore b) (serviceKey b) H"
  unfolding execute_prog_def
  by (auto intro!: derived_await_call derived_reload derived_gate derived_initializeState
        split: option.splits)

lemma derived_discard:
  "derived p st key H \<Longrightarrow> derived (discard p) st key H"
  unfolding discard_def by (rule derived_bind) simp_all

lemma derived_program:
  "derived (program b op) (stateStore b) (serviceKey b) H"
  by (cases op)
     (simp_all add: derived_discard derived_execute derived_performHealthCheck
        derived_recordSuccess derived_recordFailure derived_transitionToHalfOpen
        derived_transitionToOpen derived_transitionToClosed derived_initializeState)

text \<open>One turn of a derived task.\<close>

lemma resume_derived:
  assumes "derived p st key H" "H \<subseteq> Some ` set hist"
    and "getState st key w \<in> Some ` set hist"
  shows "\<exists>r. getState st key (snd (resume p w)) = Some r
             \<and> list_ex (\<lambda>s. advanced s r) hist
             \<and> (\<exists>H'. H' \<subseteq> Some ` set (hist @ [r])
                      \<and> derived (fst (resume p w)) st key H')"
  using assms
proof (induction p arbitrary: w H)
  case (Return a)
  obtain r where r: "getState st key w = Some r" "r \<in> set hist"
    using Return.prems(3) by auto
  have a: "list_ex (\<lambda>s. advanced s r) hist"
    using r(2) advanced_refl by (auto simp add: list_ex_iff)
  have sub: "{} \<subseteq> Some ` set (hist @ [r])" by simp
  have d: "derived (Return a) st key {}" by simp
  show ?case unfolding resume.simps fst_conv snd_conv
    using r(1) a sub d by blast
next
  case (Sync e k)
  have d: "derived (k w) st key H" and g: "getState st key (e w) = getState st key w"
    using Sync.prems(1) by simp_all
  have "getState st key (e w) \<in> Some ` set hist" using Sync.prems(3) g by simp
  from Sync.IH [OF rangeI d Sync.prems(2) this] show ?case by simp
next
  case (Get st' key' k)
  obtain r where r: "getState st key w = Some r" "r \<in> set hist"
    using Get.prems(3) by auto
  have eq: "st' = st" "key' = key"
    and d: "derived (k (Some r)) st key (insert (Some r) H)"
    using Get.prems(1) by simp_all
  have a: "list_ex (\<lambda>s. advanced s r) hist"
    using r(2) advanced_refl by (auto simp add: list_ex_iff)
  have sub: "insert (Some r) H \<subseteq> Some ` set (hist @ [r])"
    using Get.prems(2) by auto
  have res: "resume (Get st' key' k) w = (k (Some r), w)" using r(1) eq by simp
  show ?case unfolding res fst_conv snd_conv
    using r(1) a sub d by blast
next
  case (Put st' key' v p)
  have eq: "st' = st" "key' = key"
    and d: "derived p st key H"
    and u: "\<exists>u\<in>H. case u of None \<Rightarrow> True | Some s \<Rightarrow> advanced s v"
    using Put.prems(1) by simp_all
  from u obtain u' where u': "u' \<in> H" "case u' of None \<Rightarrow> True | Some s \<Rightarrow> advanced s v"
    by blast
  from u'(1) Put.prems(2) obtain s where s: "u' = Some s" "s \<in> set hist" by auto
  have a: "list_ex (\<lambda>s. advanced s v) hist"
    using s u'(2) by (auto simp add: list_ex_iff)
  have sub: "H \<subseteq> Some ` set (hist @ [v])" using Put.prems(2) by auto
  have res: "resume (Put st' key' v p) w = (p, setState st key v w)" using eq by simp
  have g: "getState st key (setState st key v w) = Some v" by (rule getState_setState)
  show ?case unfolding res fst_conv snd_conv
    using g a sub d by blast
next
  case (Yield p)
  obtain r where r: "getState st key w = Some r" "r \<in> set hist"
    using Yield.prems(3) by auto
  have a: "list_ex (\<lambda>s. advanced s r) hist"
    using r(2) advanced_refl by (auto simp add: list_ex_iff)
  have sub: "H \<subseteq> Some ` set (hist @ [r])" using Yield.prems(2) by auto
  have d: "derived p st key H" using Yield.prems(1) by simp
  show ?case unfolding resume.simps fst_conv snd_conv
    using r(1) a sub d by blast
qed

text \<open>Every turn of a pool of derived tasks.\<close>

lemma derived_widen:
  assumes "\<exists>H. H \<subseteq> Some ` set hist \<and> derived p st key H"
  shows "\<exists>H. H \<subseteq> Some ` set (hist @ [r]) \<and> derived p st key H"
proof -
  from assms obtain H where h: "H \<subseteq> Some ` set hist \<and> derived p st key H" ..
  have m: "Some ` set hist \<subseteq> Some ` set (hist @ [r])"
    by (rule image_mono) (simp add: subset_insertI)
  have "H \<subseteq> Some ` set hist" using h by (rule conjunct1)
  then have "H \<subseteq> Some ` set (hist @ [r])" using m by (rule order_trans)
  moreover have "derived p st key H" using h by (rule conjunct2)
  ultimately show ?thesis by (intro exI [of _ H] conjI)
qed

lemma turns_advances:
  assumes "\<forall>p\<in>set ts. \<exists>H. H \<subseteq> Some ` set hist \<and> derived p st key H"
    and "getState st key w \<in> Some ` set hist"
  shows "advances hist (map (getState st key) (turns schedule (ts, w)))"
  using assms
proof (induction schedule arbitrary: ts w hist)
  case Nil
  show ?case by simp
next
  case (Cons i schedule)
  show ?case
  proof (cases "i < length ts")
    case False
    obtain r where r: "getState st key w = Some r" "r \<in> set hist"
      using Cons.prems(2) by auto
    have t: "turn i (ts, w) = (ts, w)" using False by (simp add: turn_def)
    have a: "list_ex (\<lambda>s. advanced s r) hist"
      using r(2) advanced_refl by (auto simp add: list_ex_iff)
    have "\<forall>p\<in>set ts. \<exists>H. H \<subseteq> Some ` set (hist @ [r]) \<and> derived p st key H"
    proof
      fix p assume "p \<in> set ts"
      then show "\<exists>H. H \<subseteq> Some ` set (hist @ [r]) \<and> derived p st key H"
        by (rule derived_widen [OF bspec [OF Cons.prems(1)]])
    qed
    moreover have "getState st key w \<in> Some ` set (hist @ [r])" using r by simp
    ultimately have "advances (hist @ [r]) (map (getState st key) (turns schedule (ts, w)))"
      by (rule Cons.IH)
    then show ?thesis unfolding turns.simps t snd_conv list.map r(1) advances.simps
      using a by simp
  next
    case True
    let ?p = "ts ! i"
    have "?p \<in> set ts" using True by simp
    then have "\<exists>H. H \<subseteq> Some ` set hist \<and> derived ?p st key H"
      by (rule bspec [OF Cons.prems(1)])
    then obtain H where hp: "H \<subseteq> Some ` set hist \<and> derived ?p st key H" ..
    then have H: "H \<subseteq> Some ` set hist" "derived ?p st key H"
      by (rule conjunct1, rule conjunct2)
    from resume_derived [OF H(2) H(1) Cons.prems(2)]
    obtain r where rr: "getState st key (snd (resume ?p w)) = Some r
             \<and> list_ex (\<lambda>s. advanced s r) hist
             \<and> (\<exists>H'. H' \<subseteq> Some ` set (hist @ [r])
                      \<and> derived (fst (resume ?p w)) st key H')" ..
    then have r: "getState st key (snd (resume ?p w)) = Some r"
      and a: "list_ex (\<lambda>s. advanced s r) hist"
      and ex: "\<exists>H'. H' \<subseteq> Some ` set (hist @ [r])
                      \<and> derived (fst (resume ?p w)) st key H'"
      by (rule conjunct1, rule conjunct2 [THEN conjunct1], rule conjunct2 [THEN conjunct2])
    from ex obtain H' where hh: "H' \<subseteq> Some ` set (hist @ [r])
                      \<and> derived (fst (resume ?p w)) st key H'" ..
    then have H': "H' \<subseteq> Some ` set (hist @ [r])" "derived (fst (resume ?p w)) st key H'"
      by (rule conjunct1, rule conjunct2)
    have t: "turn i (ts, w) = (ts[i := fst (resume ?p w)], snd (resume ?p w))"
      using True by (simp add: turn_def)
    have "\<forall>p\<in>set (ts[i := fst (resume ?p w)]).
            \<exists>H. H \<subseteq> Some ` set (hist @ [r]) \<and> derived p st key H"
    proof
      fix p assume "p \<in> set (ts[i := fst (resume ?p w)])"
      then have "p \<in> insert (fst (resume ?p w)) (set ts)"
        using set_update_subset_insert [of ts i "fst (resume ?p w)"] by (rule_tac subsetD)
      then have "p = fst (resume ?p w) \<or> p \<in> set ts" by simp
      then show "\<exists>H. H \<subseteq> Some ` set (hist @ [r]) \<and> derived p st key H"
      proof
        assume "p = fst (resume ?p w)"
        then show ?thesis using H' by (intro exI [of _ H'] conjI) simp_all
      next
        assume "p \<in> set ts"
        then show ?thesis by (rule derived_widen [OF bspec [OF Cons.prems(1)]])
      qed
    qed
    moreover have "getState st key (snd (resume ?p w)) \<in> Some ` set (hist @ [r])"
      using r by simp
    ultimately have "advances (hist @ [r])
        (map (getState st key) (turns schedule (ts[i := fst (resume ?p w)], snd (resume ?p w))))"
      by (rule Cons.IH)
    then show ?thesis unfolding turns.simps t snd_conv list.map r advances.simps
      using a by simp
  qed
qed

lemma overlapping_operations_advance:
  assumes "getState (stateStore b) (serviceKey b) w = Some s"
  shows "advances [s] (records b (turns schedule (map (program b) ops, w)))"
  unfolding records_def
proof (rule turns_advances)
  show "\<forall>p\<in>set (map (program b) ops).
          \<exists>H. H \<subseteq> Some ` set [s] \<and> derived p (stateStore b) (serviceKey b) H"
  proof
    fix p assume "p \<in> set (map (program b) ops)"
    then obtain op where "op \<in> set ops" "p = program b op" by auto
    then have "derived p (stateStore b) (serviceKey b) {}" by (simp add: derived_program)
    then show "\<exists>H. H \<subseteq> Some ` set [s] \<and> derived p (stateStore b) (serviceKey b) H"
      by (intro exI [of _ "{}"] conjI) simp_all
  qed
  show "getState (stateStore b) (serviceKey b) w \<in> Some ` set [s]" using assms by simp
qed

text \<open>
  C6, as stated, fails, in two ways and with no \<^verbatim>\<open>resetStats\<close> involved. A successful
  call admitted in HALF_OPEN runs \<^verbatim>\<open>transitionToClosed\<close>, which writes
  \<open>failedRequests = 0\<close> (the test suite expects this reset). And operations that
  overlap write back what they read before an \<^verbatim>\<open>await\<close>. On the etcd store, where
  every store operation is a round trip over the network: a health check reads the
  record (\<open>totalRequests = 7\<close>, \<open>successfulRequests = 4\<close>, \<open>failedRequests = 3\<close>) and
  the answer is slow to arrive; meanwhile a successful \<^verbatim>\<open>execute\<close> runs up to the write
  of \<^verbatim>\<open>recordSuccess\<close> (8, 5, 3) and a failing \<^verbatim>\<open>execute\<close> up to the write of
  \<^verbatim>\<open>recordFailure\<close> (9, 5, 4, from the store's increment on); the health check then
  writes its copy with the metrics updated (7, 4, 3 again).
\<close>

theorem counters_decrease_counterexample:
  "map_option failedRequests
     (getState InMemoryStateStore ''test-service''
        (test_world InMemoryStateStore (test_stats HALF_OPEN 0 (Some 4000)))) = Some 3
   \<and> fst (execute (test_breaker InMemoryStateStore) (Resolves ())
            (test_world InMemoryStateStore (test_stats HALF_OPEN 0 (Some 4000)))) = Returned ()
   \<and> map_option failedRequests
       (getState InMemoryStateStore ''test-service''
          (snd (execute (test_breaker InMemoryStateStore) (Resolves ())
                  (test_world InMemoryStateStore (test_stats HALF_OPEN 0 (Some 4000)))))) = Some 0
   \<and> map (map_option totalRequests)
       (records (test_breaker EtcdStateStore)
          (turns [0, 1, 1, 1, 1, 2, 2, 2, 2, 2, 2, 2, 0]
             (map (program (test_breaker EtcdStateStore))
                [Op_performHealthCheck, Op_execute (Resolves ()),
                 Op_execute (Rejects (Error ''boom''))],
              test_world EtcdStateStore (test_stats CLOSED 0 None))))
       = [Some 7, Some 7, Some 7, Some 7, Some 8, Some 8, Some 8, Some 8, Some 8, Some 9,
          Some 9, Some 9, Some 7]
   \<and> map (map_option successfulRequests)
       (records (test_breaker EtcdStateStore)
          (turns [0, 1, 1, 1, 1, 2, 2, 2, 2, 2, 2, 2, 0]
             (map (program (test_breaker EtcdStateStore))
                [Op_performHealthCheck, Op_execute (Resolves ()),
                 Op_execute (Rejects (Error ''boom''))],
              test_world EtcdStateStore (test_stats CLOSED 0 None))))
       = [Some 4, Some 4, Some 4, Some 4, Some 5, Some 5, Some 5, Some 5, Some 5, Some 5,
          Some 5, Some 5, Some 4]
   \<and> map (map_option failedRequests)
       (records (test_breaker EtcdStateStore)
          (turns [0, 1, 1, 1, 1, 2, 2, 2, 2, 2, 2, 2, 0]
             (map (program (test_breaker EtcdStateStore))
                [Op_performHealthCheck, Op_execute (Resolves ()),
                 Op_execute (Rejects (Error ''boom''))],
              test_world EtcdStateStore (test_stats CLOSED 0 None))))
       = [Some 3, Some 3, Some 3, Some 3, Some 3, Some 3, Some 3, Some 3, Some 3, Some 4,
          Some 4, Some 4, Some 3]"
proof -
  let ?b = "test_breaker InMemoryStateStore"
  let ?s = "test_stats HALF_OPEN 0 (Some 4000)"
  let ?w = "test_world InMemoryStateStore ?s"
  let ?adm = "\<lparr>requestId = 0, startTime = 5000, loadedStats = ?s\<rparr>"
  let ?wa = "?w\<lparr> symbols := Suc 0, activeRequests := {|0|}, reads := Suc 0,
                     requestTimes := [5000] \<rparr>"
  have k: "stateStore ?b = InMemoryStateStore" "serviceKey ?b = ''test-service''"
    by (simp_all add: test_breaker_def)
  have g: "getState (stateStore ?b) (serviceKey ?b) ?w = Some ?s"
    by (simp add: test_defs getState_def)
  have f: "failedRequests ?s = 3" "state ?s = HALF_OPEN"
    by (simp_all add: test_stats_def)
  have ea: "execute_admission ?b ?w = admit ?b ?s ?w"
    by (rule execute_admission_not_open [OF g]) (simp add: f)
  have ad: "admit ?b ?s ?w = (Inr ?adm, ?wa)"
    by (simp add: admit_def Date_now_def Let_def test_defs fcard_fempty)
  have ga: "getState (stateStore ?b) (serviceKey ?b) ?wa = Some ?s"
    using g by (simp add: getState_def)
  have ex: "execute ?b (Resolves ()) ?w = execute_request ?b ?adm (Resolves ()) ?wa"
    by (simp add: execute_def ea ad)
  from getState_execute_request [OF ga, of ?adm "Resolves ()"] f(2)
  have "fst (execute ?b (Resolves ()) ?w) = Returned ()
        \<and> (\<exists>r. getState (stateStore ?b) (serviceKey ?b) (snd (execute ?b (Resolves ()) ?w)) = Some r
               \<and> failedRequests r = 0)"
    unfolding ex by auto
  then have closing:
    "map_option failedRequests (getState InMemoryStateStore ''test-service'' ?w) = Some 3
     \<and> fst (execute ?b (Resolves ()) ?w) = Returned ()
     \<and> map_option failedRequests
         (getState InMemoryStateStore ''test-service'' (snd (execute ?b (Resolves ()) ?w)))
         = Some 0"
    using g f(1) unfolding k by auto
  let ?e = "test_breaker EtcdStateStore"
  let ?pool = "(map (program ?e)
                  [Op_performHealthCheck, Op_execute (Resolves ()),
                   Op_execute (Rejects (Error ''boom''))],
                test_world EtcdStateStore (test_stats CLOSED 0 None))"
  have total:
    "map (map_option totalRequests)
       (records ?e (turns [0, 1, 1, 1, 1, 2, 2, 2, 2, 2, 2, 2, 0] ?pool))
       = [Some 7, Some 7, Some 7, Some 7, Some 8, Some 8, Some 8, Some 8, Some 8, Some 9,
          Some 9, Some 9, Some 7]"
    by code_simp
  have successful:
    "map (map_option successfulRequests)
       (records ?e (turns [0, 1, 1, 1, 1, 2, 2, 2, 2, 2, 2, 2, 0] ?pool))
       = [Some 4, Some 4, Some 4, Some 4, Some 5, Some 5, Some 5, Some 5, Some 5, Some 5,
          Some 5, Some 5, Some 4]"
    by code_simp
  have failed:
    "map (map_option failedRequests)
       (records ?e (turns [0, 1, 1, 1, 1, 2, 2, 2, 2, 2, 2, 2, 0] ?pool))
       = [Some 3, Some 3, Some 3, Some 3, Some 3, Some 3, Some 3, Some 3, Some 3, Some 4,
          Some 4, Some 4, Some 3]"
    by code_simp
  show ?thesis
    using closing total successful failed by (elim conjE, intro conjI) assumption+
qed

text \<open>
  C6, amended. Take a key present in the store.

  Run one at a time, every breaker operation (\<^verbatim>\<open>recordSuccess\<close>, \<^verbatim>\<open>recordFailure\<close>,
  the three transitions, the health check, a whole \<^verbatim>\<open>execute\<close>) leaves
  \<open>totalRequests\<close> and \<open>successfulRequests\<close> no smaller than it found them, and
  \<open>failedRequests\<close> too, except the transition to CLOSED, which sets it to 0:
  \<^verbatim>\<open>transitionToClosed\<close> from a state other than CLOSED, and hence an \<^verbatim>\<open>execute\<close>
  that is admitted in HALF_OPEN and whose service call resolves. The store's
  \<^verbatim>\<open>resetStats\<close> keeps \<open>totalRequests\<close> and \<open>successfulRequests\<close>; the in-memory
  store's also zeroes \<open>failedRequests\<close>.

  When operations overlap (any pool of them, their turns taken in any order), the key
  stays present and every record it holds carries forward, in the sense of \<open>advanced\<close>,
  the counters of some record it held before: an operation writes what it computed from
  a record it read. That earlier record need not be the one the write replaces, so that
  with respect to the record replaced all three counters can decrease.
\<close>

theorem lifetime_counters:
  assumes "getState (stateStore b) (serviceKey b) w = Some s"
  shows "(\<exists>r. getState (stateStore b) (serviceKey b) (recordSuccess b w) = Some r
              \<and> totals_le s r \<and> failedRequests s \<le> failedRequests r)
         \<and> (\<exists>r. getState (stateStore b) (serviceKey b) (snd (recordFailure b err w)) = Some r
              \<and> totals_le s r \<and> failedRequests s \<le> failedRequests r)
         \<and> (\<exists>r. getState (stateStore b) (serviceKey b) (snd (transitionToOpen b err w)) = Some r
              \<and> totals_le s r \<and> failedRequests s \<le> failedRequests r)
         \<and> (\<exists>r. getState (stateStore b) (serviceKey b) (transitionToHalfOpen b w) = Some r
              \<and> totals_le s r \<and> failedRequests s \<le> failedRequests r)
         \<and> (\<exists>r. getState (stateStore b) (serviceKey b) (performHealthCheck b w) = Some r
              \<and> totals_le s r \<and> failedRequests s \<le> failedRequests r)
         \<and> (\<exists>r. getState (stateStore b) (serviceKey b) (transitionToClosed b w) = Some r
              \<and> totals_le s r
              \<and> failedRequests r = (if state s = CLOSED then failedRequests s else 0))
         \<and> (\<exists>r. getState (stateStore b) (serviceKey b) (snd (execute b serviceCall w)) = Some r
              \<and> totals_le s r
              \<and> (if closes_circuit b serviceCall w
                  then state r = CLOSED \<and> failedRequests r = 0
                  else failedRequests s \<le> failedRequests r))
         \<and> (\<exists>r. getState (stateStore b) (serviceKey b)
                   (resetStats (stateStore b) (serviceKey b) w) = Some r
              \<and> totals_le s r
              \<and> failedRequests r = (case stateStore b of
                                      EtcdStateStore \<Rightarrow> failedRequests s
                                    | InMemoryStateStore \<Rightarrow> 0))
         \<and> advances [s] (records b (turns schedule (map (program b) ops, w)))"
proof -
  have overlap: "advances [s] (records b (turns schedule (map (program b) ops, w)))"
    by (rule overlapping_operations_advance [OF assms])
  have reset: "\<exists>r. getState (stateStore b) (serviceKey b)
                   (resetStats (stateStore b) (serviceKey b) w) = Some r
              \<and> totals_le s r
              \<and> failedRequests r = (case stateStore b of
                                      EtcdStateStore \<Rightarrow> failedRequests s
                                    | InMemoryStateStore \<Rightarrow> 0)"
    using getState_resetStats [OF assms] by (auto simp: totals_le_def)
  have rs: "\<exists>r. getState (stateStore b) (serviceKey b) (recordSuccess b w) = Some r
              \<and> totals_le s r \<and> failedRequests s \<le> failedRequests r"
    by (simp add: getState_recordSuccess [OF assms] totals_le_def)
  have rf: "\<exists>r. getState (stateStore b) (serviceKey b) (snd (recordFailure b err w)) = Some r
              \<and> totals_le s r \<and> failedRequests s \<le> failedRequests r"
  proof (cases "message err")
    case (Inl t)
    show ?thesis
      by (simp add: getState_recordFailure_TypeError [OF assms Inl] incremented_fields
            totals_le_def)
  next
    case (Inr m)
    show ?thesis
      by (simp add: getState_recordFailure(1) [OF assms Inr] totals_le_def failure_written_def)
  qed
  have to: "\<exists>r. getState (stateStore b) (serviceKey b) (snd (transitionToOpen b err w)) = Some r
              \<and> totals_le s r \<and> failedRequests s \<le> failedRequests r"
  proof (cases "state s = OPEN")
    case True
    then show ?thesis
      using assms by (simp add: transitionToOpen_already_open [OF assms True] totals_le_def)
  next
    case False
    show ?thesis
    proof (cases "message err")
      case (Inl t)
      show ?thesis
        using assms
        by (simp add: transitionToOpen_TypeError [OF assms False Inl] getState_reads
              totals_le_def)
    next
      case (Inr m)
      show ?thesis
        by (simp add: getState_transitionToOpen(1) [OF assms False Inr] totals_le_def)
    qed
  qed
  have th: "\<exists>r. getState (stateStore b) (serviceKey b) (transitionToHalfOpen b w) = Some r
              \<and> totals_le s r \<and> failedRequests s \<le> failedRequests r"
  proof (cases "state s = OPEN")
    case True
    then show ?thesis
      by (simp add: getState_transitionToHalfOpen [OF assms True] totals_le_def)
  next
    case False
    then show ?thesis using assms by (simp add: transitionToHalfOpen_def totals_le_def)
  qed
  have hc: "\<exists>r. getState (stateStore b) (serviceKey b) (performHealthCheck b w) = Some r
              \<and> totals_le s r \<and> failedRequests s \<le> failedRequests r"
    using getState_performHealthCheck [OF assms] by (auto simp: totals_le_def)
  have tc: "\<exists>r. getState (stateStore b) (serviceKey b) (transitionToClosed b w) = Some r
              \<and> totals_le s r
              \<and> failedRequests r = (if state s = CLOSED then failedRequests s else 0)"
  proof (cases "state s = CLOSED")
    case True
    then show ?thesis using assms by (simp add: transitionToClosed_def totals_le_def)
  next
    case False
    then show ?thesis
      by (simp add: getState_transitionToClosed [OF assms False] totals_le_def)
  qed
  have sequential:
    "(\<exists>r. getState (stateStore b) (serviceKey b) (recordSuccess b w) = Some r
              \<and> totals_le s r \<and> failedRequests s \<le> failedRequests r)
         \<and> (\<exists>r. getState (stateStore b) (serviceKey b) (snd (recordFailure b err w)) = Some r
              \<and> totals_le s r \<and> failedRequests s \<le> failedRequests r)
         \<and> (\<exists>r. getState (stateStore b) (serviceKey b) (snd (transitionToOpen b err w)) = Some r
              \<and> totals_le s r \<and> failedRequests s \<le> failedRequests r)
         \<and> (\<exists>r. getState (stateStore b) (serviceKey b) (transitionToHalfOpen b w) = Some r
              \<and> totals_le s r \<and> failedRequests s \<le> failedRequests r)
         \<and> (\<exists>r. getState (stateStore b) (serviceKey b) (performHealthCheck b w) = Some r
              \<and> totals_le s r \<and> failedRequests s \<le> failedRequests r)
         \<and> (\<exists>r. getState (stateStore b) (serviceKey b) (transitionToClosed b w) = Some r
              \<and> totals_le s r
              \<and> failedRequests r = (if state s = CLOSED then failedRequests s else 0))
         \<and> (\<exists>r. getState (stateStore b) (serviceKey b) (snd (execute b serviceCall w)) = Some r
              \<and> totals_le s r
              \<and> (if closes_circuit b serviceCall w
                  then state r = CLOSED \<and> failedRequests r = 0
                  else failedRequests s \<le> failedRequests r))
         \<and> (\<exists>r. getState (stateStore b) (serviceKey b)
                   (resetStats (stateStore b) (serviceKey b) w) = Some r
              \<and> totals_le s r
              \<and> failedRequests r = (case stateStore b of
                                      EtcdStateStore \<Rightarrow> failedRequests s
                                    | InMemoryStateStore \<Rightarrow> 0))"
    using rs rf to th hc tc getState_execute [OF assms, of serviceCall] reset by blast
  show ?thesis
    using sequential overlap by (elim conjE, intro conjI) assumption+
qed

theorem lifetime_counters_witness:
  "getState (stateStore (test_breaker EtcdStateStore)) (serviceKey (test_breaker EtcdStateStore))
     (test_world EtcdStateStore (test_stats HALF_OPEN 0 (Some 4000)))
     = Some (test_stats HALF_OPEN 0 (Some 4000))
   \<and> closes_circuit (test_breaker EtcdStateStore) (Resolves ())
         (test_world EtcdStateStore (test_stats HALF_OPEN 0 (Some 4000)))
   \<and> (\<exists>r. getState (stateStore (test_breaker EtcdStateStore)) (serviceKey (test_breaker EtcdStateStore))
             (snd (execute (test_breaker EtcdStateStore) (Resolves ())
                     (test_world EtcdStateStore (test_stats HALF_OPEN 0 (Some 4000))))) = Some r
          \<and> totals_le (test_stats HALF_OPEN 0 (Some 4000)) r
          \<and> state r = CLOSED \<and> failedRequests r = 0)
   \<and> (\<exists>r. getState (stateStore (test_breaker EtcdStateStore)) (serviceKey (test_breaker EtcdStateStore))
             (snd (recordFailure (test_breaker EtcdStateStore) (Error ''boom'')
                     (test_world EtcdStateStore (test_stats HALF_OPEN 0 (Some 4000))))) = Some r
          \<and> totals_le (test_stats HALF_OPEN 0 (Some 4000)) r
          \<and> 3 \<le> failedRequests r)
   \<and> advances [test_stats HALF_OPEN 0 (Some 4000)]
         (records (test_breaker EtcdStateStore)
            (turns [0, 1, 1, 1, 1, 0]
               (map (program (test_breaker EtcdStateStore))
                  [Op_performHealthCheck, Op_execute (Resolves ())],
                test_world EtcdStateStore (test_stats HALF_OPEN 0 (Some 4000)))))"
proof -
  let ?b = "test_breaker EtcdStateStore"
  let ?s = "test_stats HALF_OPEN 0 (Some 4000)"
  let ?w = "test_world EtcdStateStore ?s"
  have h: "getState (stateStore ?b) (serviceKey ?b) ?w = Some ?s"
    by (simp add: test_defs getState_def)
  have f: "failedRequests ?s = 3" "state ?s = HALF_OPEN"
    by (simp_all add: test_stats_def)
  have ea: "execute_admission ?b ?w = admit ?b ?s ?w"
    by (rule execute_admission_not_open [OF h]) (simp add: f)
  have cl: "closes_circuit ?b (Resolves ()) ?w"
    unfolding closes_circuit_def ea
    by (simp add: admit_def Date_now_def Let_def test_defs fcard_fempty)
  note main = lifetime_counters [OF h, of "Error ''boom''" "Resolves ()" "[0, 1, 1, 1, 1, 0]"
                  "[Op_performHealthCheck, Op_execute (Resolves ())]"]
  have a: "\<exists>r. getState (stateStore ?b) (serviceKey ?b) (snd (execute ?b (Resolves ()) ?w)) = Some r
          \<and> totals_le ?s r \<and> state r = CLOSED \<and> failedRequests r = 0"
    using main cl by auto
  have b: "\<exists>r. getState (stateStore ?b) (serviceKey ?b) (snd (recordFailure ?b (Error ''boom'') ?w)) = Some r
          \<and> totals_le ?s r \<and> 3 \<le> failedRequests r"
    using main f(1) by auto
  have c: "advances [?s]
         (records ?b
            (turns [0, 1, 1, 1, 1, 0]
               (map (program ?b) [Op_performHealthCheck, Op_execute (Resolves ())], ?w)))"
    using main by (elim conjE)
  show ?thesis
    using h cl a b c by (intro conjI)
qed

subsection \<open>Events on rejection\<close>

lemma admit_emitted: "emitted (snd (admit b stats w)) = emitted w"
  by (simp add: admit_def Date_now_def Let_def)

lemma admit_rejection_error:
  assumes "fst (admit b stats w) = Inl e"
  shows "e = Error ''Maximum concurrent requests exceeded''"
  using assms by (simp add: admit_def Date_now_def Let_def split: if_splits)

lemma execute_admission_rejected_events:
  "filter is_rejected_event (emitted (snd (execute_admission b w)))
     = filter is_rejected_event (emitted w)"
proof (cases "open_and_cooling b w")
  case True
  then show ?thesis using execute_admission_cases [of b w] by auto
next
  case False
  with execute_admission_cases [of b w]
  obtain stats w1 where u: "untouched w w1" and e: "execute_admission b w = admit b stats w1"
    by auto
  show ?thesis
    using u by (simp add: e admit_emitted untouched_def)
qed

lemma execute_admission_rejection_error:
  assumes "fst (execute_admission b w) = Inl e"
  shows "e = Error ''Circuit breaker is OPEN'' \<or> e = Error ''Maximum concurrent requests exceeded''"
proof (cases "open_and_cooling b w")
  case True
  then show ?thesis using execute_admission_cases [of b w] assms by auto
next
  case False
  with execute_admission_cases [of b w]
  obtain stats w1 where e: "execute_admission b w = admit b stats w1"
    by auto
  then show ?thesis
    using assms admit_rejection_error [of b stats w1 e] by simp
qed

text \<open>
  C9, as stated, fails: a call rejected because the circuit is OPEN, and one rejected
  because \<^verbatim>\<open>activeRequests\<close> is full, leave the list of emitted events empty.
\<close>

theorem rejection_emits_no_event_counterexample:
  "fst (execute (test_breaker EtcdStateStore) (Resolves ())
          (test_world EtcdStateStore (test_stats OPEN 3 (Some 4500))))
     = Threw (Error ''Circuit breaker is OPEN'')
   \<and> emitted (snd (execute (test_breaker EtcdStateStore) (Resolves ())
          (test_world EtcdStateStore (test_stats OPEN 3 (Some 4500))))) = []
   \<and> fst (execute (test_breaker InMemoryStateStore) (Resolves ())
          ((test_world InMemoryStateStore (test_stats CLOSED 0 None))\<lparr>activeRequests := {|0, 1|}\<rparr>))
     = Threw (Error ''Maximum concurrent requests exceeded'')
   \<and> emitted (snd (execute (test_breaker InMemoryStateStore) (Resolves ())
          ((test_world InMemoryStateStore (test_stats CLOSED 0 None))\<lparr>activeRequests := {|0, 1|}\<rparr>)))
     = []"
proof -
  let ?b = "test_breaker EtcdStateStore"
  let ?s = "test_stats OPEN 3 (Some 4500)"
  let ?w = "test_world EtcdStateStore ?s"
  have h1: "getState (stateStore ?b) (serviceKey ?b) ?w = Some ?s"
    by (simp add: test_defs getState_def)
  have h2: "state ?s = OPEN"
    by (simp add: test_stats_def)
  have h3: "clock ?w (reads ?w) - nullish (lastFailureTime ?s) 0 < resetTimeout (options ?b)"
    by (simp add: test_defs)
  have e1: "emitted ?w = []"
    by (simp add: test_defs)
  note ea = execute_admission_cooling [OF h1 h2 h3]
  have "fst (execute_admission ?b ?w) = Inl (Error ''Circuit breaker is OPEN'')"
    by (simp add: ea)
  from execute_rejected [OF this, of "Resolves ()"]
  have openc: "fst (execute ?b (Resolves ()) ?w) = Threw (Error ''Circuit breaker is OPEN'')
             \<and> emitted (snd (execute ?b (Resolves ()) ?w)) = []"
    by (simp add: ea e1)
  let ?b' = "test_breaker InMemoryStateStore"
  let ?s' = "test_stats CLOSED 0 None"
  let ?w' = "(test_world InMemoryStateStore ?s')\<lparr>activeRequests := {|0, 1|}\<rparr>"
  have g1: "getState (stateStore ?b') (serviceKey ?b') ?w' = Some ?s'"
    by (simp add: test_defs getState_def)
  have g2: "state ?s' \<noteq> OPEN"
    by (simp add: test_stats_def)
  have g3: "maxConcurrent (options ?b') = Some 2"
    by (simp add: test_defs)
  have g4: "2 \<le> int (fcard (activeRequests ?w'))"
    by (simp add: fcard_finsert_if fcard_fempty)
  have e2: "emitted ?w' = []"
    by (simp add: test_defs)
  have ea': "execute_admission ?b' ?w'
               = (Inl (Error ''Maximum concurrent requests exceeded''), ?w')"
    using execute_admission_not_open [OF g1 g2] admit_overloaded [OF g3 g4, of ?s'] by simp
  have "fst (execute_admission ?b' ?w') = Inl (Error ''Maximum concurrent requests exceeded'')"
    unfolding ea' by simp
  from execute_rejected [OF this, of "Resolves ()"]
  have ex': "execute ?b' (Resolves ()) ?w'
               = (Threw (Error ''Maximum concurrent requests exceeded''), ?w')"
    unfolding ea' by simp
  have over: "fst (execute ?b' (Resolves ()) ?w') = Threw (Error ''Maximum concurrent requests exceeded'')
            \<and> emitted (snd (execute ?b' (Resolves ()) ?w')) = []"
    unfolding ex' using e2 by simp
  show ?thesis
    using openc over by blast
qed

text \<open>
  C9, amended. For every admission rejection of \<^verbatim>\<open>execute\<close>, whether due to
  \<open>state = OPEN\<close> with the cool-down not elapsed or due to \<open>activeRequests \<ge>
  maxConcurrent\<close>, the error is thrown to the caller without invoking the service call,
  and the breaker emits no \<^verbatim>\<open>rejected\<close> event.
\<close>

theorem admission_rejection_is_thrown_without_rejected_event:
  assumes "fst (execute_admission b w) = Inl e"
  shows "fst (execute b serviceCall w) = Threw e
         \<and> (e = Error ''Circuit breaker is OPEN''
              \<or> e = Error ''Maximum concurrent requests exceeded'')
         \<and> invoked (snd (execute b serviceCall w)) = invoked w
         \<and> filter is_rejected_event (emitted (snd (execute b serviceCall w)))
             = filter is_rejected_event (emitted w)"
  using execute_admission_rejection_error [OF assms]
  by (simp add: execute_rejected [OF assms] execute_admission_invoked
        execute_admission_rejected_events)

theorem admission_rejection_is_thrown_without_rejected_event_witness:
  "fst (execute_admission (test_breaker EtcdStateStore)
          (test_world EtcdStateStore (test_stats OPEN 3 (Some 4500))))
     = Inl (Error ''Circuit breaker is OPEN'')
   \<and> fst (execute (test_breaker EtcdStateStore) (Resolves ())
          (test_world EtcdStateStore (test_stats OPEN 3 (Some 4500))))
     = Threw (Error ''Circuit breaker is OPEN'')
   \<and> invoked (snd (execute (test_breaker EtcdStateStore) (Resolves ())
          (test_world EtcdStateStore (test_stats OPEN 3 (Some 4500))))) = 0
   \<and> filter is_rejected_event (emitted (snd (execute (test_breaker EtcdStateStore) (Resolves ())
          (test_world EtcdStateStore (test_stats OPEN 3 (Some 4500)))))) = []"
proof -
  let ?b = "test_breaker EtcdStateStore"
  let ?s = "test_stats OPEN 3 (Some 4500)"
  let ?w = "test_world EtcdStateStore ?s"
  have h1: "getState (stateStore ?b) (serviceKey ?b) ?w = Some ?s"
    by (simp add: test_defs getState_def)
  have h2: "state ?s = OPEN"
    by (simp add: test_stats_def)
  have h3: "clock ?w (reads ?w) - nullish (lastFailureTime ?s) 0 < resetTimeout (options ?b)"
    by (simp add: test_defs)
  have h: "fst (execute_admission ?b ?w) = Inl (Error ''Circuit breaker is OPEN'')"
    by (simp add: execute_admission_cooling [OF h1 h2 h3])
  have v: "invoked ?w = 0" "emitted ?w = []"
    by (simp_all add: test_defs)
  show ?thesis
    using admission_rejection_is_thrown_without_rejected_event [OF h, of "Resolves ()"] h v
    by simp
qed

subsection \<open>The factory's result record\<close>

lemma executeServiceCall_failure:
  assumes "getServiceBreaker fac serviceName sid = Inr (Some b)"
    and "execute b serviceCall (w\<lparr>reads := Suc (reads w)\<rparr>) = (Threw e, w2)"
  shows "executeServiceCall fac serviceName sid serviceCall w
           = (Returned \<lparr> success = False, data = None, error = Some (as_Error e),
                          service = serviceName, shardId = sid,
                          responseTime = Some (clock w2 (reads w2) - clock w (reads w)),
                          circuitOpen = Some (circuitOpen_of e) \<rparr>,
              w2\<lparr>reads := Suc (reads w2)\<rparr>)"
  using assms by (simp add: executeServiceCall_def Date_now_def Let_def)

lemma cleanup_request_invoked: "invoked (cleanup_request rid w) = invoked w"
  by (simp add: cleanup_request_def Let_def emit_def)

text \<open>
  C8. The claim is that \<open>circuitOpen\<close> is true only for an admission rejection by an
  OPEN circuit, whatever the message of a failing service call. The code decides by
  the message: here the circuit of shard 0 is CLOSED before and after the call, the
  service call is invoked and rejects with an error whose message is
  \<^verbatim>\<open>Circuit breaker is OPEN\<close> (as a call through another, open breaker would), and
  the result record has \<open>circuitOpen = true\<close>. The same happens through
  \<^verbatim>\<open>executeWithKey\<close>, which routes the key \<^verbatim>\<open>user-123\<close> to shard 0.
\<close>

theorem circuitOpen_flag_set_by_message_of_service_error:
  "map_option state (getState InMemoryStateStore ''payment-0'' payment_world) = Some CLOSED
   \<and> map_option circuitOpen
        (returned (fst (executeServiceCall payment_factory ''payment'' (Some 0)
                          (Rejects (Error ''Circuit breaker is OPEN'') :: unit settles)
                          payment_world))) = Some (Some True)
   \<and> map_option success
        (returned (fst (executeServiceCall payment_factory ''payment'' (Some 0)
                          (Rejects (Error ''Circuit breaker is OPEN'') :: unit settles)
                          payment_world))) = Some False
   \<and> invoked (snd (executeServiceCall payment_factory ''payment'' (Some 0)
                      (Rejects (Error ''Circuit breaker is OPEN'') :: unit settles)
                      payment_world)) = 1
   \<and> map_option state
        (getState InMemoryStateStore ''payment-0''
           (snd (executeServiceCall payment_factory ''payment'' (Some 0)
                   (Rejects (Error ''Circuit breaker is OPEN'') :: unit settles)
                   payment_world))) = Some CLOSED
   \<and> executeWithKey payment_factory ''payment'' (ascii ''user-123'')
        (Rejects (Error ''Circuit breaker is OPEN'') :: unit settles) payment_world
       = executeServiceCall payment_factory ''payment'' (Some 0)
           (Rejects (Error ''Circuit breaker is OPEN'') :: unit settles) payment_world"
proof -
  let ?b = "payment_shard ''payment-0''"
  let ?e = "Error ''Circuit breaker is OPEN''"
  let ?sc = "Rejects ?e :: unit settles"
  let ?s = "test_stats CLOSED 0 None"
  let ?w1 = "payment_world\<lparr>reads := Suc (reads payment_world)\<rparr>"
  let ?adm = "\<lparr>requestId = 0, startTime = 5010, loadedStats = ?s\<rparr>"
  define wa where "wa = snd (admit ?b ?s ?w1)"
  define w2 where "w2 = cleanup_request 0 (snd (recordFailure ?b ?e (wa\<lparr>invoked := Suc (invoked wa)\<rparr>)))"
  have k: "stateStore ?b = InMemoryStateStore" "serviceKey ?b = ''payment-0''"
    "failureThreshold (options ?b) = 3"
    by (simp_all add: payment_shard_def test_defs)
  have g0: "getState InMemoryStateStore ''payment-0'' payment_world = Some ?s"
    by (simp add: payment_world_def empty_world_def getState_def)
  have g1: "getState (stateStore ?b) (serviceKey ?b) ?w1 = Some ?s"
    unfolding k using g0 by (simp add: getState_reads)
  have st: "state ?s = CLOSED" "failureCount ?s = 0"
    by (simp_all add: test_stats_def)
  have gsb: "getServiceBreaker payment_factory ''payment'' (Some 0) = Inr (Some ?b)"
    by (simp add: getServiceBreaker_def getServiceBreakers_def payment_factory_def)
  have ea: "execute_admission ?b ?w1 = admit ?b ?s ?w1"
    by (rule execute_admission_not_open [OF g1]) (simp add: st)
  have ad: "admit ?b ?s ?w1 = (Inr ?adm, wa)"
    unfolding wa_def
    by (simp add: admit_def Date_now_def Let_def payment_shard_def payment_world_def
          test_defs fcard_fempty)
  have iw: "invoked wa = 0"
    unfolding wa_def by (simp add: admit_invoked payment_world_def empty_world_def)
  have ga: "getState (stateStore ?b) (serviceKey ?b) (wa\<lparr>invoked := Suc (invoked wa)\<rparr>) = Some ?s"
    using g1 by (simp add: wa_def getState_invoked getState_admit)
  have me: "message ?e = Inr (Some ''Circuit breaker is OPEN'')"
    by simp
  have ex: "execute ?b ?sc ?w1 = (Threw ?e, w2)"
    by (simp add: execute_def ea ad execute_rejects w2_def getState_recordFailure(2) [OF ga me])
  note res = executeServiceCall_failure [OF gsb ex]
  have i2: "invoked w2 = 1"
    unfolding w2_def
    using untouched_invoked [OF untouched_recordFailure [OF untouched_refl],
        of ?b ?e "wa\<lparr>invoked := Suc (invoked wa)\<rparr>"]
    by (simp add: cleanup_request_invoked iw)
  have "getState (stateStore ?b) (serviceKey ?b) w2
          = Some (failure_written (Some ''Circuit breaker is OPEN'')
                    (wa\<lparr>invoked := Suc (invoked wa)\<rparr>) ?s)"
    using getState_recordFailure(1) [OF ga me] st k(3)
    by (simp add: w2_def getState_cleanup_request)
  then have s2: "map_option state (getState (stateStore ?b) (serviceKey ?b) w2) = Some CLOSED"
    using st(1) by (simp add: failure_written_def)
  have route: "getShardIdForKey (ascii ''user-123'') (length [?b, payment_shard ''payment-1'']) = Some 0"
    by code_simp
  have wk: "executeWithKey payment_factory ''payment'' (ascii ''user-123'') ?sc payment_world
              = executeServiceCall payment_factory ''payment'' (Some 0) ?sc payment_world"
    using route
    by (simp add: executeWithKey_def getServiceBreakers_def payment_factory_def Let_def)
  have co: "circuitOpen_of ?e = True"
    by simp
  show ?thesis
    using g0 st(1) i2 s2 wk co unfolding res k
    by (simp add: getState_reads)
qed

end
